theory Spec2Isabelle
  imports Main "HOL-Library.Word" "HOL-Library.AList"
begin

section \<open>Common values: errors, bytes and fixed-width integers\<close>

text \<open>
  A Go panic and a returned error are both values of the model: every function that
  can panic or return an error has the result type \<open>error + 'a\<close>.
\<close>

datatype error = Panic string | Err string

type_synonym byte = "8 word"
type_synonym u32 = "32 word"
type_synonym u64 = "64 word"
type_synonym i64 = "64 word"

text \<open>
  Modelled from the spec: package \<open>common\<close> (the buffer codecs
  \<open>AppendUint32ToBufferLE\<close>, \<open>ReadUint32FromBufferLE\<close>,
  \<open>AppendUint64ToBufferBE\<close>, \<open>ReadUint64FromBufferBE\<close>,
  \<open>AppendUint64ToBufferLittleEndian\<close>, \<open>ReadUint64FromBufferLittleEndian\<close>) is not
  among the sources. The names and the spec fix the layout: a fixed-width unsigned
  integer, least significant byte first (LE) or most significant byte first (BE).
  Reading beyond the end of the buffer is Go's index-out-of-range panic.
\<close>

fun nat_to_le :: "nat \<Rightarrow> nat \<Rightarrow> byte list" where
  "nat_to_le 0 v = []"
| "nat_to_le (Suc k) v = word_of_nat (v mod 256) # nat_to_le k (v div 256)"

fun le_to_nat :: "byte list \<Rightarrow> nat" where
  "le_to_nat [] = 0"
| "le_to_nat (b # bs) = unat b + 256 * le_to_nat bs"

definition AppendUint32ToBufferLE :: "byte list \<Rightarrow> u32 \<Rightarrow> byte list" where
  "AppendUint32ToBufferLE buff v = buff @ nat_to_le 4 (unat v)"

definition ReadUint32FromBufferLE :: "byte list \<Rightarrow> nat \<Rightarrow> error + (u32 \<times> nat)" where
  "ReadUint32FromBufferLE buff offset =
     (if offset + 4 \<le> length buff
      then Inr (word_of_nat (le_to_nat (take 4 (drop offset buff))), offset + 4)
      else Inl (Panic ''index out of range''))"

definition AppendUint64ToBufferLittleEndian :: "byte list \<Rightarrow> u64 \<Rightarrow> byte list" where
  "AppendUint64ToBufferLittleEndian buff v = buff @ nat_to_le 8 (unat v)"

definition ReadUint64FromBufferLittleEndian :: "byte list \<Rightarrow> nat \<Rightarrow> error + u64" where
  "ReadUint64FromBufferLittleEndian buff offset =
     (if offset + 8 \<le> length buff
      then Inr (word_of_nat (le_to_nat (take 8 (drop offset buff))))
      else Inl (Panic ''index out of range''))"

definition AppendUint64ToBufferBE :: "byte list \<Rightarrow> u64 \<Rightarrow> byte list" where
  "AppendUint64ToBufferBE buff v = buff @ rev (nat_to_le 8 (unat v))"

definition ReadUint64FromBufferBE :: "byte list \<Rightarrow> nat \<Rightarrow> error + (u64 \<times> nat)" where
  "ReadUint64FromBufferBE buff offset =
     (if offset + 8 \<le> length buff
      then Inr (word_of_nat (le_to_nat (rev (take 8 (drop offset buff)))), offset + 8)
      else Inl (Panic ''index out of range''))"

text \<open>
  Go's \<open>buff[lo:hi]\<close>. A byte slice is given by its elements \<open>buff\<close> (up to its
  length) and by \<open>spare\<close>, the bytes of its backing array between its length and its
  capacity. The bounds of a slice expression are checked against the capacity, so the
  result may reach into the spare bytes.
\<close>

definition slice :: "byte list \<Rightarrow> byte list \<Rightarrow> nat \<Rightarrow> nat \<Rightarrow> error + byte list" where
  "slice buff spare lo hi =
     (if lo \<le> hi \<and> hi \<le> length buff + length spare
      then Inr (take (hi - lo) (drop lo (buff @ spare)))
      else Inl (Panic ''slice bounds out of range''))"

section \<open>The shard state machine (package dragon)\<close>

record KVPair =
  Key :: "byte list"
  Value :: "byte list"

definition shardStateMachineCommandWrite :: byte where
  "shardStateMachineCommandWrite = 1"

definition shardStateMachineCommandForwardWrite :: byte where
  "shardStateMachineCommandForwardWrite = 2"

definition shardStateMachineCommandRemoveNode :: byte where
  "shardStateMachineCommandRemoveNode = 3"

text \<open>
  \<open>calcProcessingNode\<close>: \<open>nodeIDs[shardID % uint64(len(nodeIDs))]\<close>. The remainder is
  taken on \<open>uint64\<close>; a zero divisor is Go's integer-divide-by-zero panic.
\<close>

definition calcProcessingNode :: "int list \<Rightarrow> u64 \<Rightarrow> int \<Rightarrow> error + bool" where
  "calcProcessingNode nodeIDs shardID nodeID =
     (let n = (word_of_nat (length nodeIDs) :: u64) in
      if n = 0 then Inl (Panic ''integer divide by zero'')
      else let leaderNode = nodeIDs ! unat (shardID mod n) in Inr (nodeID = leaderNode))"

text \<open>
  A shard listener is a handle; what the state machine does to listeners (closing one,
  asking the factory for a new one) is recorded in \<open>listenerEvents\<close>. The factory hands
  out fresh handles, numbered by \<open>listenersCreated\<close>. \<open>testDragon\<close> is the flag
  \<open>s.dragon.testDragon\<close> of the Dragon that owns the state machine.
\<close>

datatype listener_event = ListenerClosed nat | ListenerCreated nat u64

record ShardOnDiskStateMachine =
  nodeID :: int
  shardID :: u64
  nodeIDs :: "int list"
  processor :: bool
  shardListener :: "nat option"
  testDragon :: bool
  listenersCreated :: nat
  listenerEvents :: "listener_event list"

definition closeShardListener :: "ShardOnDiskStateMachine \<Rightarrow> ShardOnDiskStateMachine" where
  "closeShardListener s =
     (case shardListener s of
        None \<Rightarrow> s
      | Some l \<Rightarrow> s\<lparr>listenerEvents := listenerEvents s @ [ListenerClosed l]\<rparr>)"

definition CreateShardListener :: "ShardOnDiskStateMachine \<Rightarrow> ShardOnDiskStateMachine" where
  "CreateShardListener s =
     s\<lparr>shardListener := Some (listenersCreated s),
       listenersCreated := Suc (listenersCreated s),
       listenerEvents := listenerEvents s @ [ListenerCreated (listenersCreated s) (shardID s)]\<rparr>"

definition handleRemoveNode ::
  "ShardOnDiskStateMachine \<Rightarrow> byte list \<Rightarrow> error + ShardOnDiskStateMachine" where
  "handleRemoveNode s bytes =
     (case ReadUint32FromBufferLE bytes 1 of
        Inl e \<Rightarrow> Inl e
      | Inr (nu, _) \<Rightarrow>
          let n = uint nu;
              found = list_ex (\<lambda>nid. n = nid) (nodeIDs s)
          in if \<not> found then Inr s
             else
               let newNodes = filter (\<lambda>nid. n \<noteq> nid) (nodeIDs s);
                   s1 = s\<lparr>nodeIDs := newNodes\<rparr>
               in case calcProcessingNode (nodeIDs s1) (shardID s1) (nodeID s1) of
                    Inl e \<Rightarrow> Inl e
                  | Inr newProcessor \<Rightarrow>
                      if newProcessor \<noteq> processor s1
                      then let s2 = s1\<lparr>processor := newProcessor\<rparr>;
                               s3 = closeShardListener s2
                           in Inr (if processor s3 then CreateShardListener s3 else s3)
                      else Inr s1)"

text \<open>
  The REMOVE_NODE command as \<open>Dragon.nodeRemovedFromCluster\<close> builds it: the command tag
  followed by the node ID as a little-endian \<open>uint32\<close>.
\<close>

definition removeNodeCommand :: "u32 \<Rightarrow> byte list" where
  "removeNodeCommand nid = AppendUint32ToBufferLE [shardStateMachineCommandRemoveNode] nid"

text \<open>
  The pebble batch the state machine fills is the list of its operations, in the order
  they were added; \<open>Set\<close> and \<open>Delete\<close> on an open batch do not fail.
\<close>

datatype pebble_op = PebbleSet "byte list" "byte list" | PebbleDelete "byte list"

text \<open>
  \<open>checkKey\<close>: nothing is checked on a test dragon; otherwise the first 8 bytes of the
  key, read big-endian, must be the shard ID of the state machine.
\<close>

definition checkKey :: "ShardOnDiskStateMachine \<Rightarrow> byte list \<Rightarrow> error + unit" where
  "checkKey s key =
     (if testDragon s then Inr ()
      else case ReadUint64FromBufferBE key 0 of
             Inl e \<Rightarrow> Inl e
           | Inr (sid, _) \<Rightarrow>
               if shardID s \<noteq> sid then Inl (Panic ''invalid key in sm write'')
               else Inr ())"

text \<open>
  \<open>deserializeWriteBatch\<close>: a count of puts, each put a length-prefixed key and a
  length-prefixed value, then a count of deletes, each a length-prefixed key.
\<close>

fun readPuts :: "nat \<Rightarrow> byte list \<Rightarrow> byte list \<Rightarrow> nat \<Rightarrow> error + (KVPair list \<times> nat)" where
  "readPuts 0 buff spare offset = Inr ([], offset)"
| "readPuts (Suc n) buff spare offset =
     (case ReadUint32FromBufferLE buff offset of
        Inl e \<Rightarrow> Inl e
      | Inr (kl, offset1) \<Rightarrow>
     (case slice buff spare offset1 (offset1 + unat kl) of
        Inl e \<Rightarrow> Inl e
      | Inr k \<Rightarrow>
     (case ReadUint32FromBufferLE buff (offset1 + unat kl) of
        Inl e \<Rightarrow> Inl e
      | Inr (vl, offset2) \<Rightarrow>
     (case slice buff spare offset2 (offset2 + unat vl) of
        Inl e \<Rightarrow> Inl e
      | Inr v \<Rightarrow>
     (case readPuts n buff spare (offset2 + unat vl) of
        Inl e \<Rightarrow> Inl e
      | Inr (kvs, offset3) \<Rightarrow> Inr (\<lparr>Key = k, Value = v\<rparr> # kvs, offset3))))))"

fun readDeletes :: "nat \<Rightarrow> byte list \<Rightarrow> byte list \<Rightarrow> nat \<Rightarrow> error + byte list list" where
  "readDeletes 0 buff spare offset = Inr []"
| "readDeletes (Suc n) buff spare offset =
     (case ReadUint32FromBufferLE buff offset of
        Inl e \<Rightarrow> Inl e
      | Inr (kl, offset1) \<Rightarrow>
     (case slice buff spare offset1 (offset1 + unat kl) of
        Inl e \<Rightarrow> Inl e
      | Inr k \<Rightarrow>
     (case readDeletes n buff spare (offset1 + unat kl) of
        Inl e \<Rightarrow> Inl e
      | Inr ks \<Rightarrow> Inr (k # ks))))"

definition deserializeWriteBatch ::
  "byte list \<Rightarrow> byte list \<Rightarrow> nat \<Rightarrow> error + (KVPair list \<times> byte list list)" where
  "deserializeWriteBatch buff spare offset =
     (case ReadUint32FromBufferLE buff offset of
        Inl e \<Rightarrow> Inl e
      | Inr (numPuts, offset1) \<Rightarrow>
     (case readPuts (unat numPuts) buff spare offset1 of
        Inl e \<Rightarrow> Inl e
      | Inr (kvs, offset2) \<Rightarrow>
     (case ReadUint32FromBufferLE buff offset2 of
        Inl e \<Rightarrow> Inl e
      | Inr (numDeletes, offset3) \<Rightarrow>
     (case readDeletes (unat numDeletes) buff spare offset3 of
        Inl e \<Rightarrow> Inl e
      | Inr ks \<Rightarrow> Inr (kvs, ks)))))"

text \<open>\<open>handleWrite\<close>: every put, then every delete, each key checked before it is added.\<close>

fun writePuts ::
  "ShardOnDiskStateMachine \<Rightarrow> pebble_op list \<Rightarrow> KVPair list \<Rightarrow> error + pebble_op list" where
  "writePuts s batch [] = Inr batch"
| "writePuts s batch (kvPair # kvs) =
     (case checkKey s (Key kvPair) of
        Inl e \<Rightarrow> Inl e
      | Inr _ \<Rightarrow> writePuts s (batch @ [PebbleSet (Key kvPair) (Value kvPair)]) kvs)"

fun writeDeletes ::
  "ShardOnDiskStateMachine \<Rightarrow> pebble_op list \<Rightarrow> byte list list \<Rightarrow> error + pebble_op list" where
  "writeDeletes s batch [] = Inr batch"
| "writeDeletes s batch (k # ks) =
     (case checkKey s k of
        Inl e \<Rightarrow> Inl e
      | Inr _ \<Rightarrow> writeDeletes s (batch @ [PebbleDelete k]) ks)"

definition handleWrite ::
  "ShardOnDiskStateMachine \<Rightarrow> pebble_op list \<Rightarrow> byte list \<Rightarrow> byte list
     \<Rightarrow> error + pebble_op list" where
  "handleWrite s batch bytes spare =
     (case deserializeWriteBatch bytes spare 1 of
        Inl e \<Rightarrow> Inl e
      | Inr (kvs, ks) \<Rightarrow>
     (case writePuts s batch kvs of
        Inl e \<Rightarrow> Inl e
      | Inr batch1 \<Rightarrow> writeDeletes s batch1 ks))"

section \<open>Local scans (Dragon.LocalScan, Dragon.LocalScanWithSnapshot)\<close>

text \<open>
  The pebble store is the list of its key-value pairs in ascending key order (byte-wise
  lexicographic, pebble's default comparer). An iterator with bounds ranges over the pairs
  whose key is at least the lower bound and below the upper bound; a bound that is nil
  (\<open>None\<close>) does not restrict. What \<open>iter.Close\<close> returns is a field of the store. A
  prefix argument is \<open>None\<close> for Go's nil slice.
\<close>

text \<open>
  Modelled from the spec: pebble and \<open>common.CopyByteSlice\<close> are not among the
  sources. The spec says that scans return owned copies of keys and values and that the
  underlying iterator may reuse buffers; the call site copies because ``Pebble reuses the
  slices''. So the byte slices that a scan handles are references into a memory of
  buffers: an address is the index of a buffer, and a buffer records whose it is. A pebble
  iterator has two buffers of its own, one for the key and one for the value of the pair
  it stands on. Positioning the iterator (\<open>SeekGE\<close>, \<open>Next\<close>) overwrites them, and
  \<open>iter.Key()\<close> and \<open>iter.Value()\<close> return these buffers, not copies.
  \<open>CopyByteSlice\<close> allocates a new buffer, owned by the caller, with the bytes of its
  argument. A scan returns the pairs as pairs of addresses, together with the memory.
\<close>

datatype ownership = IteratorView | OwnedCopy

record buffer =
  bufOwner :: ownership
  bufBytes :: "byte list"

type_synonym addr = nat
type_synonym memory = "buffer list"

definition alloc :: "memory \<Rightarrow> ownership \<Rightarrow> byte list \<Rightarrow> addr \<times> memory" where
  "alloc mem who b = (length mem, mem @ [\<lparr>bufOwner = who, bufBytes = b\<rparr>])"

record PebbleDB =
  dbPairs :: "KVPair list"
  iterCloseError :: "error option"

text \<open>
  An iterator: the pairs of its range from its position on (the first of them is the pair
  it stands on; none left means the iterator is not valid) and its two buffers.
\<close>

record Iterator =
  iterPairs :: "KVPair list"
  keyBuf :: addr
  valBuf :: addr

definition inBounds :: "byte list option \<Rightarrow> byte list option \<Rightarrow> byte list \<Rightarrow> bool" where
  "inBounds lowerBound upperBound k =
     ((case lowerBound of None \<Rightarrow> True | Some lo \<Rightarrow> ord_class.lexordp_eq lo k)
      \<and> (case upperBound of None \<Rightarrow> True | Some hi \<Rightarrow> ord_class.lexordp k hi))"

text \<open>Standing on a pair, the iterator holds its key and value in its two buffers.\<close>

definition position :: "Iterator \<Rightarrow> memory \<Rightarrow> memory" where
  "position iter mem =
     (case iterPairs iter of
        [] \<Rightarrow> mem
      | kv # _ \<Rightarrow> mem[keyBuf iter := \<lparr>bufOwner = IteratorView, bufBytes = Key kv\<rparr>,
                      valBuf iter := \<lparr>bufOwner = IteratorView, bufBytes = Value kv\<rparr>])"

definition NewIter ::
  "PebbleDB \<Rightarrow> memory \<Rightarrow> byte list option \<Rightarrow> byte list option \<Rightarrow> Iterator \<times> memory" where
  "NewIter db mem lowerBound upperBound =
     (let (kb, mem1) = alloc mem IteratorView [];
          (vb, mem2) = alloc mem1 IteratorView []
      in (\<lparr>iterPairs = filter (\<lambda>kv. inBounds lowerBound upperBound (Key kv)) (dbPairs db),
           keyBuf = kb, valBuf = vb\<rparr>, mem2))"

definition IterSeekGE :: "Iterator \<Rightarrow> memory \<Rightarrow> byte list \<Rightarrow> Iterator \<times> memory" where
  "IterSeekGE iter mem k =
     (let iter1 = iter\<lparr>iterPairs := dropWhile (\<lambda>kv. ord_class.lexordp (Key kv) k) (iterPairs iter)\<rparr>
      in (iter1, position iter1 mem))"

definition IterValid :: "Iterator \<Rightarrow> bool" where
  "IterValid iter \<longleftrightarrow> iterPairs iter \<noteq> []"

definition IterKey :: "Iterator \<Rightarrow> addr" where
  "IterKey iter = keyBuf iter"

definition IterValue :: "Iterator \<Rightarrow> addr" where
  "IterValue iter = valBuf iter"

definition IterNext :: "Iterator \<Rightarrow> memory \<Rightarrow> bool \<times> Iterator \<times> memory" where
  "IterNext iter mem =
     (let iter1 = iter\<lparr>iterPairs := tl (iterPairs iter)\<rparr>
      in (IterValid iter1, iter1, position iter1 mem))"

definition CopyByteSlice :: "memory \<Rightarrow> addr \<Rightarrow> addr \<times> memory" where
  "CopyByteSlice mem b = alloc mem OwnedCopy (bufBytes (mem ! b))"

text \<open>
  \<open>errors.MaybeAddStack\<close> attaches a stack trace and leaves the error otherwise as it is.
\<close>

definition MaybeAddStack :: "error \<Rightarrow> error" where
  "MaybeAddStack e = e"

text \<open>
  The loop of \<open>scanWithIter\<close>, entered with a valid iterator:
  \<open>for limit == -1 || count < limit\<close>, appending a copy of the key and of the value and
  leaving the loop when \<open>iter.Next()\<close> returns false.
\<close>

function scanLoop ::
  "int \<Rightarrow> int \<Rightarrow> Iterator \<Rightarrow> memory \<Rightarrow> (addr \<times> addr) list \<Rightarrow> (addr \<times> addr) list \<times> memory" where
  "scanLoop limit count iter mem pairs =
     (if limit = - 1 \<or> count < limit
      then let k = IterKey iter;
               v = IterValue iter;
               (kc, mem1) = CopyByteSlice mem k;
               (vc, mem2) = CopyByteSlice mem1 v;
               pairs1 = pairs @ [(kc, vc)];
               (more, iter1, mem3) = IterNext iter mem2
           in if \<not> more then (pairs1, mem3)
              else scanLoop limit (count + 1) iter1 mem3 pairs1
      else (pairs, mem))"
  by pat_completeness auto
termination
  apply (relation "measure (\<lambda>(limit, count, iter, mem, pairs). length (iterPairs iter))")
   apply simp
  apply (auto simp: IterNext_def IterValid_def Let_def)
   apply (case_tac "iterPairs iter"; simp)+
  done

declare scanLoop.simps [simp del]

definition scanWithIter ::
  "PebbleDB \<Rightarrow> Iterator \<Rightarrow> memory \<Rightarrow> byte list \<Rightarrow> int
     \<Rightarrow> error + ((addr \<times> addr) list \<times> memory)" where
  "scanWithIter d iter mem startKeyPrefix limit =
     (let (iter1, mem1) = IterSeekGE iter mem startKeyPrefix;
          (pairs, mem2) = (if IterValid iter1 then scanLoop limit 0 iter1 mem1 [] else ([], mem1))
      in case iterCloseError d of
           Some err \<Rightarrow> Inl (MaybeAddStack err)
         | None \<Rightarrow> Inr (pairs, mem2))"

definition DragonLocalScan ::
  "PebbleDB \<Rightarrow> memory \<Rightarrow> byte list option \<Rightarrow> byte list option \<Rightarrow> int
     \<Rightarrow> error + ((addr \<times> addr) list \<times> memory)" where
  "DragonLocalScan d mem startKeyPrefix endKeyPrefix limit =
     (case startKeyPrefix of
        None \<Rightarrow> Inl (Panic ''startKeyPrefix cannot be nil'')
      | Some start \<Rightarrow>
          let (iter, mem1) = NewIter d mem startKeyPrefix endKeyPrefix
          in scanWithIter d iter mem1 start limit)"

text \<open>
  A \<open>cluster.Snapshot\<close> is either Dragon's own snapshot (a view of the store) or some
  other implementation of the interface, on which the type assertion fails.
\<close>

datatype Snapshot = DragonSnapshot PebbleDB | ForeignSnapshot

definition LocalScanWithSnapshot ::
  "Snapshot \<Rightarrow> memory \<Rightarrow> byte list option \<Rightarrow> byte list option \<Rightarrow> int
     \<Rightarrow> error + ((addr \<times> addr) list \<times> memory)" where
  "LocalScanWithSnapshot sn mem startKeyPrefix endKeyPrefix limit =
     (case startKeyPrefix of
        None \<Rightarrow> Inl (Panic ''startKeyPrefix cannot be nil'')
      | Some start \<Rightarrow>
          (case sn of
             ForeignSnapshot \<Rightarrow> Inl (Panic ''not a snapshot'')
           | DragonSnapshot snap \<Rightarrow>
               let (iter, mem1) = NewIter snap mem startKeyPrefix endKeyPrefix
               in (case scanWithIter snap iter mem1 start limit of
                     Inl e \<Rightarrow> Inl e
                   | Inr pairs \<Rightarrow> Inr pairs)))"

subsection \<open>Vocabulary for the scan properties\<close>

text \<open>
  These are not functions of the source. \<open>deref\<close> reads the pair that a pair of addresses
  refers to. \<open>owned\<close> is a buffer of the caller. \<open>ownedCopies mem mem' pairs\<close> says that
  the slices of \<open>pairs\<close> are owned copies: no two of them share a buffer, each is a buffer
  allocated since \<open>mem\<close> and owned by the caller (so none is a buffer of the iterator, which
  pebble overwrites), and the buffers of \<open>mem\<close> are as they were. \<open>scanCount\<close> is the
  number of pairs the loop takes from \<open>len\<close> pairs.
\<close>

definition deref :: "memory \<Rightarrow> addr \<times> addr \<Rightarrow> KVPair" where
  "deref mem p = \<lparr>Key = bufBytes (mem ! fst p), Value = bufBytes (mem ! snd p)\<rparr>"

definition owned :: "byte list \<Rightarrow> buffer" where
  "owned b = \<lparr>bufOwner = OwnedCopy, bufBytes = b\<rparr>"

definition ownedCopies :: "memory \<Rightarrow> memory \<Rightarrow> (addr \<times> addr) list \<Rightarrow> bool" where
  "ownedCopies mem mem' pairs \<longleftrightarrow>
     distinct (concat (map (\<lambda>p. [fst p, snd p]) pairs))
     \<and> (\<forall>a \<in> set (concat (map (\<lambda>p. [fst p, snd p]) pairs)).
           length mem \<le> a \<and> a < length mem' \<and> bufOwner (mem' ! a) = OwnedCopy)
     \<and> take (length mem) mem' = mem"

definition scanCount :: "int \<Rightarrow> int \<Rightarrow> nat \<Rightarrow> nat" where
  "scanCount limit count len = (if limit = - 1 then len else min (nat (limit - count)) len)"

section \<open>Retrying cluster operations (Dragon.executeWithRetry, Dragon.getTimeout)\<close>

text \<open>
  Durations are nanoseconds. The operation \<open>f\<close> that \<open>executeWithRetry\<close> calls is given
  by what its \<open>k\<close>-th call returns and how long that call takes; \<open>time.Sleep(retryDelay)\<close>
  advances the clock by \<open>retryDelay\<close> (a longer sleep counts towards the next call). The
  result records what was returned, how often \<open>f\<close> was called and how often the loop slept.
  \<open>firstShardAccessed\<close> (a \<open>sync.Map\<close> used as a set) is the set of its keys; it is empty
  after startup.
\<close>

definition dragonCallTimeout :: int where
  "dragonCallTimeout = 10 * 1000000000"

definition initialShardTimeout :: int where
  "initialShardTimeout = 15 * 60 * 1000000000"

definition retryDelay :: nat where
  "retryDelay = 100 * 1000000"

definition ErrClusterNotReady :: error where
  "ErrClusterNotReady = Err ''cluster not ready''"

record 'r retry_run =
  returned :: "error + 'r"
  calls :: nat
  sleeps :: nat

function retryLoop ::
  "(nat \<Rightarrow> (error + 'r) \<times> nat) \<Rightarrow> int \<Rightarrow> nat \<Rightarrow> nat \<Rightarrow> 'r retry_run" where
  "retryLoop f timeout k elapsed =
     (let (res, took) = f k;
          now = elapsed + took
      in case res of
           Inr r \<Rightarrow> \<lparr>returned = Inr r, calls = Suc k, sleeps = k\<rparr>
         | Inl err \<Rightarrow>
             if err \<noteq> ErrClusterNotReady
             then \<lparr>returned = Inl (MaybeAddStack err), calls = Suc k, sleeps = k\<rparr>
             else if int now \<ge> timeout
             then \<lparr>returned = Inl err, calls = Suc k, sleeps = k\<rparr>
             else retryLoop f timeout (Suc k) (now + retryDelay))"
  by pat_completeness auto
termination
  by (relation "measure (\<lambda>(f, timeout, k, elapsed). nat (timeout - int elapsed))")
     (auto simp: retryDelay_def)

declare retryLoop.simps [simp del]

definition executeWithRetry :: "(nat \<Rightarrow> (error + 'r) \<times> nat) \<Rightarrow> int \<Rightarrow> 'r retry_run" where
  "executeWithRetry f timeout = retryLoop f timeout 0 0"

definition getTimeout :: "u64 set \<Rightarrow> u64 \<Rightarrow> int \<times> u64 set" where
  "getTimeout firstShardAccessed sid =
     (let initialised = (sid \<in> firstShardAccessed);
          res = (if \<not> initialised then initialShardTimeout else dragonCallTimeout)
      in (res, insert sid firstShardAccessed))"

definition proposeWithRetry ::
  "u64 set \<Rightarrow> u64 \<Rightarrow> (int \<Rightarrow> nat \<Rightarrow> (error + 'r) \<times> nat) \<Rightarrow> 'r retry_run \<times> u64 set" where
  "proposeWithRetry firstShardAccessed clusterID SyncPropose =
     (let (timeout, accessed) = getTimeout firstShardAccessed clusterID
      in (executeWithRetry (SyncPropose timeout) timeout, accessed))"

text \<open>
  A sequence of proposals, each to a cluster ID with its own \<open>SyncPropose\<close> behaviour,
  threading \<open>firstShardAccessed\<close> through them.
\<close>

fun proposals ::
  "u64 set \<Rightarrow> (u64 \<times> (int \<Rightarrow> nat \<Rightarrow> (error + 'r) \<times> nat)) list \<Rightarrow> 'r retry_run list" where
  "proposals firstShardAccessed [] = []"
| "proposals firstShardAccessed ((clusterID, SyncPropose) # ops) =
     (let (run, accessed) = proposeWithRetry firstShardAccessed clusterID SyncPropose
      in run # proposals accessed ops)"

text \<open>
  The clock of \<open>executeWithRetry\<close>, for stating its properties: \<open>startTime f k\<close> is the
  time since \<open>start\<close> at which the \<open>k\<close>-th call begins when every earlier call was followed
  by a sleep, and \<open>finishTime f k\<close> the time at which it returns.
\<close>

fun finishTime :: "(nat \<Rightarrow> (error + 'r) \<times> nat) \<Rightarrow> nat \<Rightarrow> nat" where
  "finishTime f 0 = snd (f 0)"
| "finishTime f (Suc k) = finishTime f k + retryDelay + snd (f (Suc k))"

fun startTime :: "(nat \<Rightarrow> (error + 'r) \<times> nat) \<Rightarrow> nat \<Rightarrow> nat" where
  "startTime f 0 = 0"
| "startTime f (Suc k) = finishTime f k + retryDelay"

section \<open>Source ingest (MessageConsumer.getBatch)\<close>

text \<open>
  A message carries its partition (\<open>int32\<close>) and offset (\<open>int64\<close>, compared as a signed
  value). The message provider is given by what its \<open>k\<close>-th call to \<open>GetMessage\<close> returns for
  the timeout passed (\<open>None\<close> is Go's nil message); \<open>elapsedAfter m k\<close> is
  \<open>time.Now().Sub(start)\<close> read after the message of call \<open>k\<close> was appended. The duplicate
  warnings logged are collected in \<open>warnings\<close>.
\<close>

record Message =
  PartitionID :: "32 word"
  Offset :: i64
  MessageBody :: "byte list"

record MessageConsumer =
  msgProvider :: "nat \<Rightarrow> int \<Rightarrow> error + Message option"
  elapsedAfter :: "nat \<Rightarrow> int"
  startupCommittedOffsets :: "32 word \<rightharpoonup> i64"

text \<open>
  The last offset seen on a partition: \<open>-1\<close> when no offset was committed at startup,
  otherwise the committed offset minus one (\<open>lastOffset--\<close> on \<open>int64\<close>).
\<close>

definition lastSeenOffset :: "MessageConsumer \<Rightarrow> 32 word \<Rightarrow> i64" where
  "lastSeenOffset m partID =
     (case startupCommittedOffsets m partID of
        None \<Rightarrow> - 1
      | Some lastOffset \<Rightarrow> lastOffset - 1)"

record batch_state =
  msgs :: "Message list"
  offsetsToCommit :: "32 word \<rightharpoonup> i64"
  warnings :: "Message list"

function getBatchLoop ::
  "MessageConsumer \<Rightarrow> int \<Rightarrow> int \<Rightarrow> nat \<Rightarrow> int \<Rightarrow> batch_state \<Rightarrow> error + batch_state" where
  "getBatchLoop m pollTimeout maxRecords k remaining st =
     (if int (length (msgs st)) \<le> maxRecords
      then (case msgProvider m k remaining of
              Inl err \<Rightarrow> Inl err
            | Inr None \<Rightarrow> Inr st
            | Inr (Some msg) \<Rightarrow>
                let partID = PartitionID msg;
                    lastOffset = lastSeenOffset m partID;
                    st1 = st\<lparr>offsetsToCommit := (offsetsToCommit st)(partID \<mapsto> Offset msg + 1)\<rparr>
                in if sint (Offset msg) \<le> sint lastOffset
                   then Inr (st1\<lparr>warnings := warnings st1 @ [msg]\<rparr>)
                   else
                     let st2 = st1\<lparr>msgs := msgs st1 @ [msg]\<rparr>;
                         remaining1 = pollTimeout - elapsedAfter m k
                     in if remaining1 \<le> 0 then Inr st2
                        else getBatchLoop m pollTimeout maxRecords (Suc k) remaining1 st2)
      else Inr st)"
  by pat_completeness auto
termination
  by (relation "measure (\<lambda>(m, pollTimeout, maxRecords, k, remaining, st).
                  nat (maxRecords + 1 - int (length (msgs st))))")
     auto

declare getBatchLoop.simps [simp del]

definition getBatch :: "MessageConsumer \<Rightarrow> int \<Rightarrow> int \<Rightarrow> error + batch_state" where
  "getBatch m pollTimeout maxRecords =
     getBatchLoop m pollTimeout maxRecords 0 pollTimeout
       \<lparr>msgs = [], offsetsToCommit = Map.empty, warnings = []\<rparr>"

text \<open>A message is a duplicate when its offset is at most the last offset seen.\<close>

definition duplicate :: "MessageConsumer \<Rightarrow> Message \<Rightarrow> bool" where
  "duplicate m msg \<longleftrightarrow> sint (Offset msg) \<le> sint (lastSeenOffset m (PartitionID msg))"

section \<open>The cluster interface and write batches (package cluster)\<close>

text \<open>
  Modelled from the spec: package \<open>cluster\<close> (the \<open>WriteBatch\<close> type with
  \<open>NewWriteBatch\<close>, \<open>AddPut\<close> and \<open>AddDelete\<close>, and the \<open>Cluster\<close> interface) is not
  among the sources. The spec gives the batch as
  \<open>{shardID, notifyRemote, puts: [(key,val)], deletes: [key]}\<close>; puts and deletes are
  appended in call order.
\<close>

record WriteBatch =
  ShardID :: u64
  NotifyRemote :: bool
  Puts :: "KVPair list"
  Deletes :: "byte list list"

definition NewWriteBatch :: "u64 \<Rightarrow> bool \<Rightarrow> WriteBatch" where
  "NewWriteBatch sid notify = \<lparr>ShardID = sid, NotifyRemote = notify, Puts = [], Deletes = []\<rparr>"

definition AddPut :: "WriteBatch \<Rightarrow> byte list \<Rightarrow> byte list \<Rightarrow> WriteBatch" where
  "AddPut wb k v = wb\<lparr>Puts := Puts wb @ [\<lparr>Key = k, Value = v\<rparr>]\<rparr>"

definition AddDelete :: "WriteBatch \<Rightarrow> byte list \<Rightarrow> WriteBatch" where
  "AddDelete wb k = wb\<lparr>Deletes := Deletes wb @ [k]\<rparr>"

text \<open>
  The part of the \<open>Cluster\<close> interface the push engine calls. \<open>LocalGet\<close> returns
  \<open>None\<close> for Go's nil (no value stored under the key); \<open>WriteBatch\<close> returns the error
  of the proposal, if any.
\<close>

record Cluster =
  LocalGet :: "byte list \<Rightarrow> error + byte list option"
  LocalScan :: "byte list \<Rightarrow> byte list \<Rightarrow> int \<Rightarrow> error + KVPair list"
  WriteBatchTo :: "WriteBatch \<Rightarrow> error option"

section \<open>Forwarder and receiver queues (package push)\<close>

definition ForwarderTableID :: u64 where "ForwarderTableID = 1"
definition ForwarderSequenceTableID :: u64 where "ForwarderSequenceTableID = 2"
definition ReceiverTableID :: u64 where "ReceiverTableID = 3"
definition ReceiverSequenceTableID :: u64 where "ReceiverSequenceTableID = 4"

record PushEngine =
  cluster :: Cluster
  forwardSequences :: "u64 \<rightharpoonup> u64"

definition genForwardSequenceKey :: "u64 \<Rightarrow> byte list" where
  "genForwardSequenceKey localShardID =
     AppendUint64ToBufferLittleEndian
       (AppendUint64ToBufferLittleEndian [] ForwarderSequenceTableID) localShardID"

definition genReceivingSequenceKey :: "u64 \<Rightarrow> u64 \<Rightarrow> byte list" where
  "genReceivingSequenceKey receivingShardID sendingShardID =
     AppendUint64ToBufferLittleEndian
       (AppendUint64ToBufferLittleEndian
          (AppendUint64ToBufferLittleEndian [] ReceiverSequenceTableID) receivingShardID)
       sendingShardID"

definition nextForwardSequence :: "PushEngine \<Rightarrow> u64 \<Rightarrow> error + (u64 \<times> PushEngine)" where
  "nextForwardSequence p localShardID =
     (case forwardSequences p localShardID of
        Some lastSeq \<Rightarrow> Inr (lastSeq, p)
      | None \<Rightarrow>
          (case LocalGet (cluster p) (genForwardSequenceKey localShardID) of
             Inl e \<Rightarrow> Inl e
           | Inr None \<Rightarrow> Inr (1, p)
           | Inr (Some seqBytes) \<Rightarrow>
               (case ReadUint64FromBufferLittleEndian seqBytes 0 of
                  Inl e \<Rightarrow> Inl e
                | Inr lastSeq \<Rightarrow>
                    Inr (lastSeq, p\<lparr>forwardSequences := (forwardSequences p)(localShardID \<mapsto> lastSeq)\<rparr>))))"

definition updateNextForwardSequence ::
  "PushEngine \<Rightarrow> u64 \<Rightarrow> u64 \<Rightarrow> WriteBatch \<Rightarrow> PushEngine \<times> WriteBatch" where
  "updateNextForwardSequence p localShardID sequence batch =
     (let seqKey = genForwardSequenceKey localShardID;
          seqValueBytes = AppendUint64ToBufferLittleEndian [] sequence;
          batch1 = AddPut batch seqKey seqValueBytes
      in (p\<lparr>forwardSequences := (forwardSequences p)(localShardID \<mapsto> sequence)\<rparr>, batch1))"

text \<open>
  \<open>QueueForRemoteSend\<close>. The row encoder \<open>common.EncodeRow\<close> is not among the sources
  and is a parameter; the \<open>key\<close> argument of the source is not used by it.
\<close>

definition QueueForRemoteSend ::
  "('row \<Rightarrow> error + byte list) \<Rightarrow> PushEngine \<Rightarrow> u64 \<Rightarrow> 'row \<Rightarrow> u64 \<Rightarrow> u64 \<Rightarrow> WriteBatch
     \<Rightarrow> error + (PushEngine \<times> WriteBatch)" where
  "QueueForRemoteSend EncodeRow p remoteShardID row localShardID remoteConsumerID batch =
     (case nextForwardSequence p localShardID of
        Inl e \<Rightarrow> Inl e
      | Inr (sequence, p1) \<Rightarrow>
          let queueKeyBytes = AppendUint64ToBufferLittleEndian [] ForwarderTableID;
              queueKeyBytes = AppendUint64ToBufferLittleEndian queueKeyBytes localShardID;
              queueKeyBytes = AppendUint64ToBufferLittleEndian queueKeyBytes remoteShardID;
              queueKeyBytes = AppendUint64ToBufferLittleEndian queueKeyBytes sequence;
              queueKeyBytes = AppendUint64ToBufferLittleEndian queueKeyBytes remoteConsumerID
          in case EncodeRow row of
               Inl e \<Rightarrow> Inl e
             | Inr valueBuff \<Rightarrow>
                 let batch1 = AddPut batch queueKeyBytes valueBuff;
                     sequence1 = sequence + 1
                 in Inr (updateNextForwardSequence p1 localShardID sequence1 batch1))"

definition lastReceivingSequence :: "Cluster \<Rightarrow> u64 \<Rightarrow> u64 \<Rightarrow> error + u64" where
  "lastReceivingSequence c receivingShardID sendingShardID =
     (case LocalGet c (genReceivingSequenceKey receivingShardID sendingShardID) of
        Inl e \<Rightarrow> Inl e
      | Inr None \<Rightarrow> Inr 0
      | Inr (Some seqBytes) \<Rightarrow> ReadUint64FromBufferLittleEndian seqBytes 0)"

definition updateLastReceivingSequence :: "u64 \<Rightarrow> u64 \<Rightarrow> u64 \<Rightarrow> WriteBatch \<Rightarrow> WriteBatch" where
  "updateLastReceivingSequence receivingShardID sendingShardID sequence batch =
     AddPut batch (genReceivingSequenceKey receivingShardID sendingShardID)
       (AppendUint64ToBufferLittleEndian [] sequence)"

text \<open>
  The two maps of \<open>handleReceivedRows\<close> are association lists in insertion order:
  \<open>remoteConsumerRows\<close> from consumer ID to the rows appended so far and
  \<open>receivingSequences\<close> from sending shard to the last sequence taken. Go ranges over
  \<open>receivingSequences\<close> in an unspecified order; the model takes insertion order (the
  keys written are distinct, so the order of these puts does not change what is stored).
\<close>

record receive_state =
  remoteConsumerRows :: "(u64 \<times> byte list list) list"
  receivingSequences :: "(u64 \<times> u64) list"
  receiveBatch :: WriteBatch

definition receiveRow :: "Cluster \<Rightarrow> u64 \<Rightarrow> receive_state \<Rightarrow> KVPair \<Rightarrow> error + receive_state" where
  "receiveRow c receivingShardID st kvPair =
     (case ReadUint64FromBufferLittleEndian (Key kvPair) 16 of
        Inl e \<Rightarrow> Inl e
      | Inr sendingShardID \<Rightarrow>
     (case (case map_of (receivingSequences st) sendingShardID of
              Some v \<Rightarrow> Inr v
            | None \<Rightarrow> lastReceivingSequence c receivingShardID sendingShardID) of
        Inl e \<Rightarrow> Inl e
      | Inr lastReceivedSeq \<Rightarrow>
     (case ReadUint64FromBufferLittleEndian (Key kvPair) 24 of
        Inl e \<Rightarrow> Inl e
      | Inr receivedSeq \<Rightarrow>
     (case ReadUint64FromBufferLittleEndian (Key kvPair) 32 of
        Inl e \<Rightarrow> Inl e
      | Inr remoteConsumerID \<Rightarrow>
          let st1 =
                (if receivedSeq > lastReceivedSeq
                 then let rows = (case map_of (remoteConsumerRows st) remoteConsumerID of
                                    Some rs \<Rightarrow> rs
                                  | None \<Rightarrow> []);
                          rows = rows @ [Value kvPair]
                      in st\<lparr>remoteConsumerRows :=
                             AList.update remoteConsumerID rows (remoteConsumerRows st),
                           receivingSequences :=
                             AList.update sendingShardID receivedSeq (receivingSequences st)\<rparr>
                 else st)
          in Inr (st1\<lparr>receiveBatch := AddDelete (receiveBatch st1) (Key kvPair)\<rparr>)))))"

fun receiveRows :: "Cluster \<Rightarrow> u64 \<Rightarrow> receive_state \<Rightarrow> KVPair list \<Rightarrow> error + receive_state" where
  "receiveRows c receivingShardID st [] = Inr st"
| "receiveRows c receivingShardID st (kvPair # kvPairs) =
     (case receiveRow c receivingShardID st kvPair of
        Inl e \<Rightarrow> Inl e
      | Inr st1 \<Rightarrow> receiveRows c receivingShardID st1 kvPairs)"

text \<open>
  \<open>handleReceivedRows\<close>. The raw row handler is a parameter: it is given the rows by
  consumer and the batch, and returns the batch with its own writes. The result of the
  model is what the function did: the rows handed to the handler (none when the handler
  was not called) and the batch written to the cluster. \<open>handleScanned\<close> is the body of
  the function from the loop on, as a function of the pairs that the scan returned.
\<close>

definition handleScanned ::
  "Cluster \<Rightarrow> ((u64 \<times> byte list list) list \<Rightarrow> WriteBatch \<Rightarrow> error + WriteBatch) \<Rightarrow> u64
     \<Rightarrow> KVPair list \<Rightarrow> error + ((u64 \<times> byte list list) list \<times> WriteBatch)" where
  "handleScanned c HandleRawRows receivingShardID kvPairs =
     (let batch = NewWriteBatch receivingShardID False
      in case receiveRows c receivingShardID
                \<lparr>remoteConsumerRows = [], receivingSequences = [], receiveBatch = batch\<rparr> kvPairs of
           Inl e \<Rightarrow> Inl e
         | Inr st \<Rightarrow>
        (case (if remoteConsumerRows st \<noteq> []
               then HandleRawRows (remoteConsumerRows st) (receiveBatch st)
               else Inr (receiveBatch st)) of
           Inl e \<Rightarrow> Inl e
         | Inr batch1 \<Rightarrow>
             let batch2 = foldl (\<lambda>b (sendingShardID, lastReceivedSequence).
                                   updateLastReceivingSequence receivingShardID sendingShardID
                                     lastReceivedSequence b)
                                batch1 (receivingSequences st)
             in (case WriteBatchTo c batch2 of
                   Some e \<Rightarrow> Inl e
                 | None \<Rightarrow> Inr (remoteConsumerRows st, batch2))))"

definition handleReceivedRows ::
  "Cluster \<Rightarrow> ((u64 \<times> byte list list) list \<Rightarrow> WriteBatch \<Rightarrow> error + WriteBatch) \<Rightarrow> u64
     \<Rightarrow> error + ((u64 \<times> byte list list) list \<times> WriteBatch)" where
  "handleReceivedRows c HandleRawRows receivingShardID =
     (let keyStartPrefix = AppendUint64ToBufferLittleEndian [] ReceiverTableID;
          keyStartPrefix = AppendUint64ToBufferLittleEndian keyStartPrefix receivingShardID
      in case LocalScan c keyStartPrefix keyStartPrefix 100 of
           Inl e \<Rightarrow> Inl e
         | Inr kvPairs \<Rightarrow> handleScanned c HandleRawRows receivingShardID kvPairs)"

subsection \<open>Vocabulary for the receiver properties\<close>

text \<open>
  These are not functions of the source: they name what the properties of
  \<open>handleReceivedRows\<close> speak about. A receiver key holds the sending shard at offset 16,
  the sender sequence at offset 24 and the consumer ID at offset 32. Position \<open>i\<close> of a scan
  is \<open>fresh\<close> when its sequence is greater than the stored last-received sequence of its
  sending shard and greater than the sequence of every earlier entry of the scan from the same
  sending shard. \<open>taken\<close> and \<open>lastTaken\<close> follow the scan with the running
  last-received sequences, the way the loop does; \<open>running\<close> reads the running value of
  a loop state. \<open>deletingBatch\<close> is the batch after the loop (a delete for every scanned
  key) and \<open>sequencePuts\<close> the puts of the updated last-received sequences.
\<close>

definition sendingShardOf :: "KVPair \<Rightarrow> u64" where
  "sendingShardOf kv = word_of_nat (le_to_nat (take 8 (drop 16 (Key kv))))"

definition receivedSeqOf :: "KVPair \<Rightarrow> u64" where
  "receivedSeqOf kv = word_of_nat (le_to_nat (take 8 (drop 24 (Key kv))))"


definition fresh :: "(u64 \<Rightarrow> u64) \<Rightarrow> KVPair list \<Rightarrow> nat \<Rightarrow> bool" where
  "fresh stored kvs i \<longleftrightarrow>
     stored (sendingShardOf (kvs ! i)) < receivedSeqOf (kvs ! i)
     \<and> (\<forall>j < i. sendingShardOf (kvs ! j) = sendingShardOf (kvs ! i)
            \<longrightarrow> receivedSeqOf (kvs ! j) < receivedSeqOf (kvs ! i))"

definition handedPositions :: "(u64 \<Rightarrow> u64) \<Rightarrow> KVPair list \<Rightarrow> nat list" where
  "handedPositions stored kvs = filter (fresh stored kvs) [0..<length kvs]"


fun taken :: "(u64 \<Rightarrow> u64) \<Rightarrow> KVPair list \<Rightarrow> KVPair list" where
  "taken lst [] = []"
| "taken lst (kv # kvs) =
     (if lst (sendingShardOf kv) < receivedSeqOf kv
      then kv # taken (lst(sendingShardOf kv := receivedSeqOf kv)) kvs
      else taken lst kvs)"

fun lastTaken :: "(u64 \<Rightarrow> u64) \<Rightarrow> KVPair list \<Rightarrow> (u64 \<Rightarrow> u64)" where
  "lastTaken lst [] = lst"
| "lastTaken lst (kv # kvs) =
     (if lst (sendingShardOf kv) < receivedSeqOf kv
      then lastTaken (lst(sendingShardOf kv := receivedSeqOf kv)) kvs
      else lastTaken lst kvs)"

definition running :: "(u64 \<Rightarrow> u64) \<Rightarrow> receive_state \<Rightarrow> u64 \<Rightarrow> u64" where
  "running stored st s = (case map_of (receivingSequences st) s of Some v \<Rightarrow> v | None \<Rightarrow> stored s)"

definition receiverPrefix :: "u64 \<Rightarrow> byte list" where
  "receiverPrefix r =
     AppendUint64ToBufferLittleEndian (AppendUint64ToBufferLittleEndian [] ReceiverTableID) r"



section \<open>The table executor (TableExecutor.HandleRows)\<close>

text \<open>
  Modelled from the spec: package \<open>table\<close> (\<open>EncodeTableKeyPrefix\<close>) is not among the
  sources. The spec gives the key of a table row as
  \<open>u64 shardID (big-endian) || u64 tableID (big-endian) || encoded-PK-columns\<close>, so the
  prefix is the shard ID followed by the table ID, both big-endian.
\<close>

definition EncodeTableKeyPrefix :: "u64 \<Rightarrow> u64 \<Rightarrow> byte list" where
  "EncodeTableKeyPrefix tableID sid = AppendUint64ToBufferBE (AppendUint64ToBufferBE [] sid) tableID"

text \<open>
  Rows are values of a type \<open>'row\<close>. The row codecs of package \<open>common\<close>
  (\<open>EncodeKeyCols\<close>, which appends the encoded primary key to the key buffer,
  \<open>EncodeRow\<close> and \<open>DecodeRow\<close>) are not among the sources; they are fields of the
  executor, with the table's column types and key columns fixed. \<open>uncommittedBatches\<close> is
  the set of keys of the \<open>sync.Map\<close>; the committed callback that removes the shard again
  runs when the batch commits, outside \<open>HandleRows\<close>.
\<close>

record 'row TableExecutor =
  TableInfoID :: u64
  EncodeKeyCols :: "'row \<Rightarrow> byte list \<Rightarrow> error + byte list"
  EncodeRow :: "'row \<Rightarrow> error + byte list"
  DecodeRow :: "byte list \<Rightarrow> error + 'row"
  store :: Cluster
  uncommittedBatches :: "u64 set"

text \<open>
  The loop state of \<open>HandleRows\<close>: the rows emitted so far (\<open>rc\<close> is their number), the
  entries \<open>(prevIndex, currIndex)\<close> with \<open>-1\<close> for an absent row, and the write batch of
  the execution context. An entry of the incoming batch is the pair of
  \<open>PreviousRow(i)\<close> and \<open>CurrentRow(i)\<close>, \<open>None\<close> for nil.
\<close>

record 'row handle_state =
  outRows :: "'row list"
  entries :: "(int \<times> int) list"
  ctxWriteBatch :: WriteBatch

definition handleEntry ::
  "'row TableExecutor \<Rightarrow> 'row handle_state \<Rightarrow> 'row option \<times> 'row option
     \<Rightarrow> error + 'row handle_state" where
  "handleEntry t st entry =
     (let (prevRow, currentRow) = entry;
          rc = int (length (outRows st))
      in case currentRow of
           Some currentRow1 \<Rightarrow>
             (let keyBuff = EncodeTableKeyPrefix (TableInfoID t) (ShardID (ctxWriteBatch st))
              in case EncodeKeyCols t currentRow1 keyBuff of
                   Inl err \<Rightarrow> Inl err
                 | Inr keyBuff \<Rightarrow>
                (case LocalGet (store t) keyBuff of
                   Inl err \<Rightarrow> Inl err
                 | Inr v \<Rightarrow>
                (case (case v of
                         None \<Rightarrow> Inr (outRows st, - 1, rc)
                       | Some stored \<Rightarrow>
                           (case DecodeRow t stored of
                              Inl err \<Rightarrow> Inl err
                            | Inr old \<Rightarrow> Inr (outRows st @ [old], rc, rc + 1))) of
                   Inl err \<Rightarrow> Inl err
                 | Inr (rows, pidx, rc1) \<Rightarrow>
                     let rows1 = rows @ [currentRow1];
                         cidx = rc1
                     in case EncodeRow t currentRow1 of
                          Inl err \<Rightarrow> Inl err
                        | Inr valueBuff \<Rightarrow>
                            Inr (st\<lparr>outRows := rows1,
                                    entries := entries st @ [(pidx, cidx)],
                                    ctxWriteBatch := AddPut (ctxWriteBatch st) keyBuff valueBuff\<rparr>))))
         | None \<Rightarrow>
             (case prevRow of
                None \<Rightarrow> Inl (Panic ''invalid memory address or nil pointer dereference'')
              | Some prevRow1 \<Rightarrow>
                  let keyBuff = EncodeTableKeyPrefix (TableInfoID t) (ShardID (ctxWriteBatch st))
                  in case EncodeKeyCols t prevRow1 keyBuff of
                       Inl err \<Rightarrow> Inl err
                     | Inr keyBuff \<Rightarrow>
                         Inr (st\<lparr>outRows := outRows st @ [prevRow1],
                                 entries := entries st @ [(rc, - 1)],
                                 ctxWriteBatch := AddDelete (ctxWriteBatch st) keyBuff\<rparr>)))"

fun handleEntries ::
  "'row TableExecutor \<Rightarrow> 'row handle_state \<Rightarrow> ('row option \<times> 'row option) list
     \<Rightarrow> error + 'row handle_state" where
  "handleEntries t st [] = Inr st"
| "handleEntries t st (entry # rowsBatch) =
     (case handleEntry t st entry of
        Inl err \<Rightarrow> Inl err
      | Inr st1 \<Rightarrow> handleEntries t st1 rowsBatch)"

text \<open>
  \<open>HandleRows\<close>. \<open>handleForwardAndCapture\<close> (the consuming nodes and the fill capture) is
  a parameter: it is given the emitted rows batch and the write batch and returns the batch
  with the writes of the consumers. The result is the executor, the emitted rows batch and
  the write batch.
\<close>

definition HandleRows ::
  "'row TableExecutor
     \<Rightarrow> ('row list \<times> (int \<times> int) list \<Rightarrow> WriteBatch \<Rightarrow> error + WriteBatch)
     \<Rightarrow> ('row option \<times> 'row option) list \<Rightarrow> WriteBatch
     \<Rightarrow> error + ('row TableExecutor \<times> ('row list \<times> (int \<times> int) list) \<times> WriteBatch)" where
  "HandleRows t handleForwardAndCapture rowsBatch batch =
     (let sid = ShardID batch;
          t1 = t\<lparr>uncommittedBatches := insert sid (uncommittedBatches t)\<rparr>
      in case handleEntries t1 \<lparr>outRows = [], entries = [], ctxWriteBatch = batch\<rparr> rowsBatch of
           Inl err \<Rightarrow> Inl err
         | Inr st \<Rightarrow>
             (case handleForwardAndCapture (outRows st, entries st) (ctxWriteBatch st) of
                Inl err \<Rightarrow> Inl err
              | Inr batch1 \<Rightarrow> Inr (t1, (outRows st, entries st), batch1)))"

text \<open>
  What committing a write batch does to the key-value store: the state machine adds every
  put and then every delete to the pebble batch (\<open>handleWrite\<close>), and pebble applies them
  in that order. \<open>onStore\<close> is a cluster whose \<open>LocalGet\<close> reads a given store;
  \<open>noConsumers\<close> is \<open>handleForwardAndCapture\<close> of a table with no consuming node that is
  not filling.
\<close>

datatype store_op = StorePut "byte list" "byte list" | StoreDelete "byte list"

fun applyOp :: "(byte list \<rightharpoonup> byte list) \<Rightarrow> store_op \<Rightarrow> (byte list \<rightharpoonup> byte list)" where
  "applyOp s (StorePut k v) = s(k \<mapsto> v)"
| "applyOp s (StoreDelete k) = s(k := None)"

definition applyWriteBatch :: "(byte list \<rightharpoonup> byte list) \<Rightarrow> WriteBatch \<Rightarrow> (byte list \<rightharpoonup> byte list)" where
  "applyWriteBatch s wb =
     foldl applyOp s (map (\<lambda>kv. StorePut (Key kv) (Value kv)) (Puts wb) @ map StoreDelete (Deletes wb))"

definition onStore :: "Cluster \<Rightarrow> (byte list \<rightharpoonup> byte list) \<Rightarrow> Cluster" where
  "onStore c s = c\<lparr>LocalGet := (\<lambda>k. Inr (s k))\<rparr>"

definition noConsumers :: "'row list \<times> (int \<times> int) list \<Rightarrow> WriteBatch \<Rightarrow> error + WriteBatch" where
  "noConsumers rowsBatch batch = Inr batch"

section \<open>The client (package client)\<close>

text \<open>
  Every method of \<open>Client\<close> runs under the client's mutex, so a call is one atomic step
  of the client state. What the server answers is part of the call, and so is the error of
  \<open>grpc.Dial\<close> in \<open>Start\<close> and of \<open>conn.Close\<close> in \<open>Stop\<close>, if any. \<open>serverCalls\<close> records
  the requests sent to the server. \<open>ExecuteStatement\<close> starts a goroutine
  (\<open>doExecuteStatement\<close>) with a fresh result channel; the goroutine is one entry of
  \<open>goroutines\<close>, holding the lines written to its channel, whether the channel is closed,
  and where the goroutine is: about to send the request, streaming lines, final line written,
  channel closed, finished. A failed heartbeat removes its session.
\<close>

datatype request =
    ReqCreateSession
  | ReqCloseSession string
  | ReqExecuteSQLStatement string string
  | ReqHeartbeat string

datatype response = Returned | ReturnedError string | ReturnedSession string | ReturnedChannel nat

datatype phase = Spawned | Streaming | FinalWritten | ChannelClosed | Finished

record goroutine =
  goSessionID :: string
  goStatement :: string
  chLines :: "string list"
  chClosed :: bool
  goPhase :: phase

record Client =
  started :: bool
  executing :: bool
  sessionIDs :: "string set"
  serverCalls :: "request list"
  goroutines :: "goroutine list"

definition NewClient :: Client where
  "NewClient = \<lparr>started = False, executing = False, sessionIDs = {}, serverCalls = [],
                 goroutines = []\<rparr>"

definition Start :: "Client \<Rightarrow> string option \<Rightarrow> Client \<times> response" where
  "Start c dialError =
     (if started c then (c, Returned)
      else let c1 = c\<lparr>sessionIDs := {}\<rparr>
           in case dialError of
                Some err \<Rightarrow> (c1, ReturnedError err)
              | None \<Rightarrow> (c1\<lparr>started := True\<rparr>, Returned))"

definition Stop :: "Client \<Rightarrow> string option \<Rightarrow> Client \<times> response" where
  "Stop c closeError =
     (if \<not> started c then (c, Returned)
      else let c1 = c\<lparr>started := False\<rparr>
           in case closeError of
                Some err \<Rightarrow> (c1, ReturnedError err)
              | None \<Rightarrow> (c1, Returned))"

definition CreateSession :: "Client \<Rightarrow> string + string \<Rightarrow> Client \<times> response" where
  "CreateSession c answer =
     (if \<not> started c then (c, ReturnedError ''not started'')
      else if executing c then (c, ReturnedError ''statement currently executing'')
      else let c1 = c\<lparr>serverCalls := serverCalls c @ [ReqCreateSession]\<rparr>
           in case answer of
                Inl err \<Rightarrow> (c1, ReturnedError err)
              | Inr sessID \<Rightarrow> (c1\<lparr>sessionIDs := insert sessID (sessionIDs c1)\<rparr>, ReturnedSession sessID))"

definition CloseSession :: "Client \<Rightarrow> string \<Rightarrow> string option \<Rightarrow> Client \<times> response" where
  "CloseSession c sessionID answer =
     (if \<not> started c then (c, ReturnedError ''not started'')
      else if executing c then (c, ReturnedError ''statement currently executing'')
      else let c1 = c\<lparr>serverCalls := serverCalls c @ [ReqCloseSession sessionID],
                       sessionIDs := sessionIDs c - {sessionID}\<rparr>
           in case answer of
                Some err \<Rightarrow> (c1, ReturnedError err)
              | None \<Rightarrow> (c1, Returned))"

definition ExecuteStatement :: "Client \<Rightarrow> string \<Rightarrow> string \<Rightarrow> Client \<times> response" where
  "ExecuteStatement c sessionID statement =
     (if \<not> started c then (c, ReturnedError ''not started'')
      else if executing c then (c, ReturnedError ''statement already executing'')
      else (c\<lparr>executing := True,
               goroutines := goroutines c @
                 [\<lparr>goSessionID = sessionID, goStatement = statement, chLines = [],
                   chClosed = False, goPhase = Spawned\<rparr>]\<rparr>,
            ReturnedChannel (length (goroutines c))))"

text \<open>
  \<open>sendHeartbeats\<close> ranges over \<open>sessionIDs\<close> and sends one heartbeat per session;
  \<open>visited\<close> is the order in which the range visits the sessions (Go leaves the order of
  a map range open) and \<open>failing\<close> holds the sessions whose heartbeat returns an error.
\<close>

definition sendHeartbeats :: "Client \<Rightarrow> string list \<Rightarrow> string set \<Rightarrow> Client \<times> response" where
  "sendHeartbeats c visited failing =
     (if \<not> started c then (c, Returned)
      else (c\<lparr>serverCalls := serverCalls c @ map ReqHeartbeat visited,
              sessionIDs := sessionIDs c - failing\<rparr>, Returned))"

text \<open>
  The steps of the system: calls of the client's methods, the heartbeat timer, and the
  steps of goroutine \<open>i\<close> (it sends the request, writes a line, writes its last line, closes
  the channel, takes the lock and clears \<open>executing\<close>). A goroutine step that is not the
  next step of that goroutine is not possible (\<open>None\<close>), and neither is a heartbeat
  round that does not visit every session once.
\<close>

datatype event =
    CallStart "string option"
  | CallStop "string option"
  | CallCreateSession "string + string"
  | CallCloseSession string "string option"
  | CallExecuteStatement string string
  | HeartbeatTimer "string list" "string set"
  | GoRequest nat
  | GoSend nat string
  | GoFinal nat string
  | GoClose nat
  | GoClear nat

definition goStep ::
  "Client \<Rightarrow> nat \<Rightarrow> phase \<Rightarrow> (goroutine \<Rightarrow> goroutine) \<Rightarrow> (Client \<Rightarrow> Client)
     \<Rightarrow> (Client \<times> response) option" where
  "goStep c i at change effect =
     (if i < length (goroutines c) \<and> goPhase (goroutines c ! i) = at
      then Some (effect (c\<lparr>goroutines := (goroutines c)[i := change (goroutines c ! i)]\<rparr>), Returned)
      else None)"

fun step :: "Client \<Rightarrow> event \<Rightarrow> (Client \<times> response) option" where
  "step c (CallStart dialError) = Some (Start c dialError)"
| "step c (CallStop closeError) = Some (Stop c closeError)"
| "step c (CallCreateSession answer) = Some (CreateSession c answer)"
| "step c (CallCloseSession sessionID answer) = Some (CloseSession c sessionID answer)"
| "step c (CallExecuteStatement sessionID statement) = Some (ExecuteStatement c sessionID statement)"
| "step c (HeartbeatTimer visited failing) =
     (if distinct visited \<and> set visited = sessionIDs c
      then Some (sendHeartbeats c visited failing)
      else None)"
| "step c (GoRequest i) =
     goStep c i Spawned (\<lambda>g. g\<lparr>goPhase := Streaming\<rparr>)
       (\<lambda>c1. c1\<lparr>serverCalls := serverCalls c1 @
                [ReqExecuteSQLStatement (goSessionID (goroutines c ! i)) (goStatement (goroutines c ! i))]\<rparr>)"
| "step c (GoSend i line) =
     goStep c i Streaming (\<lambda>g. g\<lparr>chLines := chLines g @ [line]\<rparr>) (\<lambda>c1. c1)"
| "step c (GoFinal i line) =
     goStep c i Streaming (\<lambda>g. g\<lparr>chLines := chLines g @ [line], goPhase := FinalWritten\<rparr>) (\<lambda>c1. c1)"
| "step c (GoClose i) =
     goStep c i FinalWritten (\<lambda>g. g\<lparr>chClosed := True, goPhase := ChannelClosed\<rparr>) (\<lambda>c1. c1)"
| "step c (GoClear i) =
     goStep c i ChannelClosed (\<lambda>g. g\<lparr>goPhase := Finished\<rparr>) (\<lambda>c1. c1\<lparr>executing := False\<rparr>)"

fun run :: "Client \<Rightarrow> event list \<Rightarrow> Client option" where
  "run c [] = Some c"
| "run c (e # es) = (case step c e of None \<Rightarrow> None | Some (c1, r) \<Rightarrow> run c1 es)"

text \<open>
  Goroutine \<open>i\<close> is live until it has cleared \<open>executing\<close>. The invariant: at most one
  goroutine is live, \<open>executing\<close> is set exactly when one is, and a channel is closed exactly
  when its goroutine has passed \<open>close(ch)\<close>.
\<close>

definition live :: "Client \<Rightarrow> nat \<Rightarrow> bool" where
  "live c i \<longleftrightarrow> i < length (goroutines c) \<and> goPhase (goroutines c ! i) \<noteq> Finished"

definition oneStatement :: "Client \<Rightarrow> bool" where
  "oneStatement c \<longleftrightarrow>
     (\<forall>i j. live c i \<and> live c j \<longrightarrow> i = j)
     \<and> (executing c \<longleftrightarrow> (\<exists>i. live c i))
     \<and> (\<forall>i < length (goroutines c).
           chClosed (goroutines c ! i) \<longleftrightarrow> goPhase (goroutines c ! i) \<in> {ChannelClosed, Finished})"

section \<open>Concrete inputs\<close>

text \<open>A replica of shard 1002 on node 1, not the processor, used as a concrete input below.\<close>

definition sm0 :: ShardOnDiskStateMachine where
  "sm0 = \<lparr>nodeID = 1, shardID = 1002, nodeIDs = [0, 1, 2], processor = False,
     shardListener = None, testDragon = False, listenersCreated = 0, listenerEvents = []\<rparr>"

text \<open>
  The only replica of shard 1002, on node 0: it is the processor and holds the listener it
  created.
\<close>

definition smLast :: ShardOnDiskStateMachine where
  "smLast = \<lparr>nodeID = 0, shardID = 1002, nodeIDs = [0], processor = True,
     shardListener = Some 0, testDragon = False, listenersCreated = 1,
     listenerEvents = [ListenerCreated 0 1002]\<rparr>"

text \<open>
  A replica of shard 5, two serialized write batches (\<open>wb5\<close> with a put and a delete for
  shard 5, \<open>wb6\<close> with a put for shard 6), and a push engine on an empty store
  (\<open>cluster0\<close>).
\<close>

definition wb5 :: "byte list" where
  "wb5 = [1, 1,0,0,0, 9,0,0,0, 0,0,0,0,0,0,0,5,9, 1,0,0,0, 7, 1,0,0,0, 8,0,0,0, 0,0,0,0,0,0,0,5]"

definition wb6 :: "byte list" where
  "wb6 = [1, 1,0,0,0, 8,0,0,0, 0,0,0,0,0,0,0,6, 1,0,0,0, 7, 0,0,0,0]"

definition sm5 :: ShardOnDiskStateMachine where
  "sm5 = \<lparr>nodeID = 0, shardID = 5, nodeIDs = [0, 1, 2], processor = False,
     shardListener = None, testDragon = False, listenersCreated = 0, listenerEvents = []\<rparr>"

definition cluster0 :: Cluster where
  "cluster0 = \<lparr>LocalGet = (\<lambda>k. Inr None), LocalScan = (\<lambda>lo hi n. Inr []),
     WriteBatchTo = (\<lambda>b. None)\<rparr>"

definition pe0 :: PushEngine where
  "pe0 = \<lparr>cluster = cluster0, forwardSequences = Map.empty\<rparr>"

text \<open>
  \<open>storeCluster pairs\<close> is a cluster on a store that holds \<open>pairs\<close> (in ascending
  key order): \<open>LocalGet\<close> and \<open>LocalScan\<close> answer from the store, the scan over the
  pairs from the start prefix up to the end prefix (exclusive) as \<open>Dragon.LocalScan\<close>
  does, and every write batch is accepted. \<open>keepBatch\<close> is a row handler that writes
  nothing. \<open>receiverKey\<close> is the key of a receiver entry as \<open>transferData\<close> builds it
  and \<open>forwarderKey\<close> the key of a forwarder entry as \<open>QueueForRemoteSend\<close> builds it.

  \<open>scanned256\<close>: two entries of the receiver queue of shard 1000, both from shard 7 for
  consumer 9, with sender sequences 256 and 1, in ascending order of their keys (the
  sequence is little-endian in the key, so the key of 256 sorts first).
  \<open>scannedTwoConsumers\<close>: three entries from shard 7 with sequences 1, 2 and 3, the
  second for consumer 8 and the others for consumer 9. \<open>scannedTwoSenders\<close>: entries of
  the receiver queue of shard 2000 from shard 3 (sequences 5 and 6) and shard 5
  (sequence 1); \<open>storeTwoSenders\<close> holds them and 5 as the last-received sequence of
  shard 3, which is what \<open>storedTwoSenders\<close> says.
\<close>

definition storeCluster :: "KVPair list \<Rightarrow> Cluster" where
  "storeCluster pairs =
     \<lparr>LocalGet = (\<lambda>k. Inr (map_of (map (\<lambda>kv. (Key kv, Value kv)) pairs) k)),
      LocalScan = (\<lambda>lo hi n.
         let inRange = filter (\<lambda>kv. inBounds (Some lo) (Some hi) (Key kv)) pairs
         in Inr (if n = - 1 then inRange else take (nat n) inRange)),
      WriteBatchTo = (\<lambda>b. None)\<rparr>"










text \<open>A store with three pairs.\<close>

definition db3 :: PebbleDB where
  "db3 = \<lparr>dbPairs = [\<lparr>Key = [1, 0], Value = [10]\<rparr>, \<lparr>Key = [1, 5], Value = [11]\<rparr>,
                      \<lparr>Key = [2, 0], Value = [12]\<rparr>],
           iterCloseError = None\<rparr>"

text \<open>
  Three operations: not ready twice and then done; not ready once and then failing with
  another error; never ready, each call using up the whole timeout.
\<close>

definition notReadyTwice :: "nat \<Rightarrow> (error + unit) \<times> nat" where
  "notReadyTwice k = (if k < 2 then (Inl ErrClusterNotReady, 1000000000) else (Inr (), 1000000000))"

definition failsSecond :: "nat \<Rightarrow> (error + unit) \<times> nat" where
  "failsSecond k = (if k < 1 then (Inl ErrClusterNotReady, 1000000000) else (Inl (Err ''shard closed''), 0))"

definition neverReady :: "int \<Rightarrow> nat \<Rightarrow> (error + unit) \<times> nat" where
  "neverReady timeout k = (Inl ErrClusterNotReady, nat timeout)"

text \<open>
  A consumer of partition 0 with committed offset 5 (last seen 4) whose provider delivers
  offset 5 and then offset 4 again.
\<close>

definition msgAt :: "i64 \<Rightarrow> Message" where
  "msgAt off = \<lparr>PartitionID = 0, Offset = off, MessageBody = []\<rparr>"

definition consumer0 :: MessageConsumer where
  "consumer0 = \<lparr>msgProvider = (\<lambda>k remaining. if k = 0 then Inr (Some (msgAt 5))
                                               else if k = 1 then Inr (Some (msgAt 4))
                                               else Inr None),
                 elapsedAfter = (\<lambda>k. 0),
                 startupCommittedOffsets = [0 \<mapsto> 5]\<rparr>"

text \<open>
  A table whose rows are byte strings, keyed by their first byte and stored as they are.
\<close>

definition tableExec :: "byte list TableExecutor" where
  "tableExec = \<lparr>TableInfoID = 1000,
                 EncodeKeyCols = (\<lambda>r keyBuff. Inr (keyBuff @ take 1 r)),
                 EncodeRow = Inr, DecodeRow = Inr,
                 store = cluster0, uncommittedBatches = {}\<rparr>"

text \<open>
  A started client just after \<open>ExecuteStatement\<close>, and the same client when the goroutine
  has written its last line and closed the channel.
\<close>

definition statementRunning :: Client where
  "statementRunning =
     \<lparr>started = True, executing = True, sessionIDs = {}, serverCalls = [],
      goroutines = [\<lparr>goSessionID = ''s1'', goStatement = ''select 1'', chLines = [],
                     chClosed = False, goPhase = Spawned\<rparr>]\<rparr>"

definition statementClosed :: Client where
  "statementClosed =
     \<lparr>started = True, executing = True, sessionIDs = {},
      serverCalls = [ReqExecuteSQLStatement ''s1'' ''select 1''],
      goroutines = [\<lparr>goSessionID = ''s1'', goStatement = ''select 1'',
                     chLines = [''0 rows returned''], chClosed = True,
                     goPhase = ChannelClosed\<rparr>]\<rparr>"

section \<open>Buffer codecs\<close>

lemma length_nat_to_le [simp]: "length (nat_to_le k v) = k"
  by (induction k arbitrary: v) simp_all

lemma unat_byte_of_nat: "unat (word_of_nat (v mod 256) :: byte) = v mod 256"
  by (simp add: unat_of_nat take_bit_nat_eq_self)

lemma le_to_nat_nat_to_le: "le_to_nat (nat_to_le k v) = v mod 256 ^ k"
proof (induction k arbitrary: v)
  case 0
  then show ?case by simp
next
  case (Suc k)
  have "v mod (256 * 256 ^ k) = 256 * (v div 256 mod 256 ^ k) + v mod 256"
    by (rule mod_mult2_eq)
  then show ?case
    using Suc by (simp add: unat_byte_of_nat)
qed

lemma le_to_nat_bound: "le_to_nat bs < 256 ^ length bs"
proof (induction bs)
  case Nil
  then show ?case by simp
next
  case (Cons b bs)
  have "unat b < 256" using unsigned_less [of b] by simp
  then show ?case using Cons by simp
qed

lemma nat_to_le_le_to_nat: "nat_to_le (length bs) (le_to_nat bs) = bs"
proof (induction bs)
  case Nil
  then show ?case by simp
next
  case (Cons b bs)
  have b: "unat b < 256" using unsigned_less [of b] by simp
  then have "(unat b + 256 * le_to_nat bs) mod 256 = unat b"
    and "(unat b + 256 * le_to_nat bs) div 256 = le_to_nat bs"
    by simp_all
  then show ?case using Cons by simp
qed

lemma take_drop_append_exact:
  "length xs = k \<Longrightarrow> take k (drop (length buff) (buff @ xs @ rest)) = xs"
  by simp

lemma le_to_nat_nat_to_le_u32: "le_to_nat (nat_to_le 4 (unat (v :: u32))) = unat v"
proof -
  have "unat v < 2 ^ 32" using unsigned_less [of v] by simp
  moreover have "(256::nat) ^ 4 = 2 ^ 32" by simp
  ultimately show ?thesis by (simp only: le_to_nat_nat_to_le mod_less)
qed

lemma le_to_nat_nat_to_le_u64: "le_to_nat (nat_to_le 8 (unat (v :: u64))) = unat v"
proof -
  have "unat v < 2 ^ 64" using unsigned_less [of v] by simp
  moreover have "(256::nat) ^ 8 = 2 ^ 64" by simp
  ultimately show ?thesis by (simp only: le_to_nat_nat_to_le mod_less)
qed

lemma ReadUint32_Append:
  "ReadUint32FromBufferLE (AppendUint32ToBufferLE buff v) (length buff) = Inr (v, length buff + 4)"
proof -
  have "take 4 (drop (length buff) (buff @ nat_to_le 4 (unat v) @ [])) = nat_to_le 4 (unat v)"
    by (rule take_drop_append_exact) (rule length_nat_to_le)
  then show ?thesis
    unfolding ReadUint32FromBufferLE_def AppendUint32ToBufferLE_def
    by (simp add: le_to_nat_nat_to_le_u32 del: nat_to_le.simps le_to_nat.simps)
qed

lemma ReadUint64BE_Append:
  "ReadUint64FromBufferBE (AppendUint64ToBufferBE buff v @ rest) (length buff) = Inr (v, length buff + 8)"
proof -
  have "take 8 (drop (length buff) (buff @ rev (nat_to_le 8 (unat v)) @ rest)) = rev (nat_to_le 8 (unat v))"
    by (rule take_drop_append_exact) (simp only: length_rev length_nat_to_le)
  then show ?thesis
    unfolding ReadUint64FromBufferBE_def AppendUint64ToBufferBE_def
    by (simp add: le_to_nat_nat_to_le_u64 del: nat_to_le.simps le_to_nat.simps)
qed

lemma ReadUint64BE_prefix:
  assumes "ReadUint64FromBufferBE key 0 = Inr (sid, off)"
  shows "take 8 key = AppendUint64ToBufferBE [] sid"
proof -
  from assms have len: "8 \<le> length key"
    and sid: "sid = word_of_nat (le_to_nat (rev (take 8 key)))"
    by (auto simp: ReadUint64FromBufferBE_def split: if_splits)
  let ?bs = "rev (take 8 key)"
  have l: "length ?bs = 8" using len by simp
  have "le_to_nat ?bs < 256 ^ 8" using le_to_nat_bound [of ?bs] l by simp
  then have "unat sid = le_to_nat ?bs"
    unfolding sid by (simp add: unat_of_nat take_bit_nat_eq_self)
  then have "nat_to_le 8 (unat sid) = ?bs"
    using nat_to_le_le_to_nat [of ?bs] l by simp
  then show ?thesis by (simp add: AppendUint64ToBufferBE_def)
qed

lemma nat_to_le_4: "nat_to_le 4 v = [word_of_nat (v mod 256), word_of_nat (v div 256 mod 256),
   word_of_nat (v div 256 div 256 mod 256), word_of_nat (v div 256 div 256 div 256 mod 256)]"
proof -
  have "(4::nat) = Suc (Suc (Suc (Suc 0)))" by simp
  then show ?thesis by (simp only: nat_to_le.simps)
qed

section \<open>Processor selection\<close>

lemma calcProcessingNode_index:
  assumes "ns \<noteq> []" and "length ns < 2 ^ 64"
  shows "unat (s mod (word_of_nat (length ns) :: u64)) = unat s mod length ns"
    and "(word_of_nat (length ns) :: u64) \<noteq> 0"
proof -
  have u: "unat (word_of_nat (length ns) :: u64) = length ns"
    using assms(2) by (simp add: unat_of_nat take_bit_nat_eq_self)
  show "unat (s mod (word_of_nat (length ns) :: u64)) = unat s mod length ns"
    by (simp add: unat_mod u)
  show "(word_of_nat (length ns) :: u64) \<noteq> 0"
    using u assms(1) by (metis length_0_conv unat_0)
qed

lemma calcProcessingNode_nonempty:
  assumes "ns \<noteq> []" and "length ns < 2 ^ 64"
  shows "calcProcessingNode ns s n = Inr (n = ns ! (unat s mod length ns))"
  using calcProcessingNode_index [OF assms] by (simp add: calcProcessingNode_def Let_def)

text \<open>
  Claim C3. For a non-empty replica set (a Go slice, so shorter than \<open>2 ^ 64\<close>), shard
  \<open>s\<close> and node \<open>n\<close>, \<open>calcProcessingNode\<close> returns, without panicking, whether \<open>n\<close> is
  \<open>nodeIDs[s mod len(nodeIDs)]\<close>. The result depends on nothing but the three arguments,
  and exactly one node ID of the replica set is selected.
\<close>

theorem calcProcessingNode_selects_one:
  assumes "ns \<noteq> []" and "length ns < 2 ^ 64"
  shows "calcProcessingNode ns s n = Inr (n = ns ! (unat s mod length ns))
       \<and> (\<exists>!m. m \<in> set ns \<and> calcProcessingNode ns s m = Inr True)"
proof -
  note e = calcProcessingNode_nonempty [OF assms]
  have "ns ! (unat s mod length ns) \<in> set ns"
    using assms(1) by simp
  then show ?thesis
    using e by auto
qed

theorem calcProcessingNode_selects_one_witness:
  "calcProcessingNode [0, 1, 2] 1001 2 = Inr True
   \<and> (\<exists>!m. m \<in> set [0, 1, 2 :: int] \<and> calcProcessingNode [0, 1, 2] 1001 m = Inr True)"
proof -
  have a: "[0, 1, 2 :: int] \<noteq> []" by simp
  have b: "length [0, 1, 2 :: int] < 2 ^ 64" by simp
  have c: "(2::int) = [0, 1, 2] ! (unat (1001 :: u64) mod length [0, 1, 2 :: int])" by simp
  show ?thesis
    using calcProcessingNode_selects_one [OF a b, of 1001 2] c by simp
qed

section \<open>Removing a node from the replica set\<close>

lemma ReadUint32_removeNodeCommand:
  "ReadUint32FromBufferLE (removeNodeCommand nu) (Suc 0) = Inr (nu, 5)"
  using ReadUint32_Append [of "[shardStateMachineCommandRemoveNode]" nu]
  by (simp add: removeNodeCommand_def)

lemma handleRemoveNode_absent:
  assumes "uint nu \<notin> set (nodeIDs s)"
  shows "handleRemoveNode s (removeNodeCommand nu) = Inr s"
  using assms
  by (simp add: handleRemoveNode_def ReadUint32_removeNodeCommand list_ex_iff)

lemma handleRemoveNode_present:
  assumes "uint nu \<in> set (nodeIDs s)"
    and "calcProcessingNode (filter (\<lambda>nid. uint nu \<noteq> nid) (nodeIDs s)) (shardID s) (nodeID s) = Inr p"
  shows "handleRemoveNode s (removeNodeCommand nu) =
     Inr (if p = processor s then s\<lparr>nodeIDs := filter (\<lambda>nid. uint nu \<noteq> nid) (nodeIDs s)\<rparr>
          else let s3 = closeShardListener (s\<lparr>nodeIDs := filter (\<lambda>nid. uint nu \<noteq> nid) (nodeIDs s), processor := p\<rparr>)
               in if p then CreateShardListener s3 else s3)"
  using assms
  by (auto simp add: handleRemoveNode_def ReadUint32_removeNodeCommand list_ex_iff Let_def closeShardListener_def split: option.splits)

lemma handleRemoveNode_result_absent:
  assumes "handleRemoveNode s (removeNodeCommand nu) = Inr s'"
  shows "uint nu \<notin> set (nodeIDs s')"
proof (cases "uint nu \<in> set (nodeIDs s)")
  case False
  then show ?thesis using assms by (simp add: handleRemoveNode_absent)
next
  case True
  then obtain p where p: "calcProcessingNode (filter (\<lambda>nid. uint nu \<noteq> nid) (nodeIDs s)) (shardID s) (nodeID s) = Inr p"
    using assms
    by (auto simp add: handleRemoveNode_def ReadUint32_removeNodeCommand list_ex_iff Let_def split: sum.splits)
  have "nodeIDs s' = filter (\<lambda>nid. uint nu \<noteq> nid) (nodeIDs s)"
    using assms handleRemoveNode_present [OF True p]
    by (auto simp: Let_def closeShardListener_def CreateShardListener_def split: if_splits option.splits)
  then show ?thesis by simp
qed

text \<open>
  What \<open>handleRemoveNode\<close> does while a node ID remains. A REMOVE_NODE command for a
  node ID that is not in the in-memory replica set returns the state machine unchanged
  (replica set, processor flag, listener and listener events), so applying the command a
  second time changes nothing. For a node ID that is in the set, when another node ID
  remains in the set, the node ID is removed, the processor is recomputed on the new set,
  and the listener is touched only when the processor flag changed: the old listener, if
  any, is closed and a new one is created if this node is now the processor.
\<close>

lemma handleRemoveNode_effect:
  "(uint nu \<notin> set (nodeIDs s) \<longrightarrow> handleRemoveNode s (removeNodeCommand nu) = Inr s)
   \<and> (\<forall>s1. handleRemoveNode s (removeNodeCommand nu) = Inr s1 \<longrightarrow>
          handleRemoveNode s1 (removeNodeCommand nu) = Inr s1)
   \<and> (uint nu \<in> set (nodeIDs s) \<and> filter (\<lambda>nid. uint nu \<noteq> nid) (nodeIDs s) \<noteq> []
        \<and> length (nodeIDs s) < 2 ^ 64 \<longrightarrow>
       (\<exists>s1. handleRemoveNode s (removeNodeCommand nu) = Inr s1
          \<and> nodeIDs s1 = filter (\<lambda>nid. uint nu \<noteq> nid) (nodeIDs s)
          \<and> processor s1 = (nodeID s = nodeIDs s1 ! (unat (shardID s) mod length (nodeIDs s1)))
          \<and> (processor s1 = processor s \<longrightarrow>
                 shardListener s1 = shardListener s \<and> listenerEvents s1 = listenerEvents s)
          \<and> (processor s1 \<noteq> processor s \<longrightarrow>
                 listenerEvents s1 = listenerEvents s
                   @ (case shardListener s of None \<Rightarrow> [] | Some l \<Rightarrow> [ListenerClosed l])
                   @ (if processor s1 then [ListenerCreated (listenersCreated s) (shardID s)] else []))))"
proof (intro conjI impI allI)
  assume "uint nu \<notin> set (nodeIDs s)"
  then show "handleRemoveNode s (removeNodeCommand nu) = Inr s"
    by (rule handleRemoveNode_absent)
next
  fix s1
  assume "handleRemoveNode s (removeNodeCommand nu) = Inr s1"
  then have "uint nu \<notin> set (nodeIDs s1)"
    by (rule handleRemoveNode_result_absent)
  then show "handleRemoveNode s1 (removeNodeCommand nu) = Inr s1"
    by (rule handleRemoveNode_absent)
next
  let ?rest = "filter (\<lambda>nid. uint nu \<noteq> nid) (nodeIDs s)"
  let ?p = "nodeID s = ?rest ! (unat (shardID s) mod length ?rest)"
  assume a: "uint nu \<in> set (nodeIDs s) \<and> ?rest \<noteq> [] \<and> length (nodeIDs s) < 2 ^ 64"
  have "length ?rest \<le> length (nodeIDs s)" by simp
  with a have len: "length ?rest < 2 ^ 64" by linarith
  from a have ne: "?rest \<noteq> []" by simp
  have calc: "calcProcessingNode ?rest (shardID s) (nodeID s) = Inr ?p"
    by (rule calcProcessingNode_nonempty [OF ne len])
  from a have mem: "uint nu \<in> set (nodeIDs s)" by simp
  note r = handleRemoveNode_present [OF mem calc]
  show "\<exists>s1. handleRemoveNode s (removeNodeCommand nu) = Inr s1
          \<and> nodeIDs s1 = ?rest
          \<and> processor s1 = (nodeID s = nodeIDs s1 ! (unat (shardID s) mod length (nodeIDs s1)))
          \<and> (processor s1 = processor s \<longrightarrow>
                 shardListener s1 = shardListener s \<and> listenerEvents s1 = listenerEvents s)
          \<and> (processor s1 \<noteq> processor s \<longrightarrow>
                 listenerEvents s1 = listenerEvents s
                   @ (case shardListener s of None \<Rightarrow> [] | Some l \<Rightarrow> [ListenerClosed l])
                   @ (if processor s1 then [ListenerCreated (listenersCreated s) (shardID s)] else []))"
  proof (cases "?p = processor s")
    case True
    then show ?thesis
      unfolding r by simp
  next
    case False
    then show ?thesis
      unfolding r
      by (cases "shardListener s")
         (auto simp: Let_def closeShardListener_def CreateShardListener_def)
  qed
qed

lemma w0: "uint (0::u32) \<in> set (nodeIDs sm0) \<and> filter (\<lambda>nid. uint (0::u32) \<noteq> nid) (nodeIDs sm0) \<noteq> []
        \<and> length (nodeIDs sm0) < 2 ^ 64"
  by (simp add: sm0_def)

lemma handleRemoveNode_effect_sm0:
  "handleRemoveNode sm0 (removeNodeCommand 0)
     = Inr (sm0\<lparr>nodeIDs := [1, 2], processor := True, shardListener := Some 0,
                 listenersCreated := 1, listenerEvents := [ListenerCreated 0 1002]\<rparr>)
   \<and> handleRemoveNode (sm0\<lparr>nodeIDs := [1, 2], processor := True, shardListener := Some 0,
                 listenersCreated := 1, listenerEvents := [ListenerCreated 0 1002]\<rparr>) (removeNodeCommand 0)
     = Inr (sm0\<lparr>nodeIDs := [1, 2], processor := True, shardListener := Some 0,
                 listenersCreated := 1, listenerEvents := [ListenerCreated 0 1002]\<rparr>)"
proof -
  let ?s1 = "sm0\<lparr>nodeIDs := [1, 2], processor := True, shardListener := Some 0,
                 listenersCreated := 1, listenerEvents := [ListenerCreated 0 1002]\<rparr>"
  have c: "calcProcessingNode [1, 2] 1002 1 = Inr True"
    by (simp add: calcProcessingNode_def)
  have first: "handleRemoveNode sm0 (removeNodeCommand 0) = Inr ?s1"
    by (simp add: handleRemoveNode_def ReadUint32_removeNodeCommand sm0_def c Let_def
        closeShardListener_def CreateShardListener_def)
  have absent: "uint (0::u32) \<notin> set (nodeIDs ?s1)" by (simp add: sm0_def)
  from handleRemoveNode_effect [of 0 ?s1] absent
  have second: "handleRemoveNode ?s1 (removeNodeCommand 0) = Inr ?s1" by blast
  from handleRemoveNode_effect [of 0 sm0] w0 first
  have "handleRemoveNode ?s1 (removeNodeCommand 0) = Inr ?s1" by blast
  with first second show ?thesis by simp
qed

text \<open>
  Claim C7. The claim says that a node ID that is present is removed, the processor
  recomputed and the listener closed if this node was the processor. On the only replica
  of a shard the code does not get there: \<open>handleRemoveNode\<close> empties \<open>nodeIDs\<close> and
  calls \<open>calcProcessingNode\<close> on the empty slice, where
  \<open>shardID % uint64(len(nodeIDs))\<close> is an integer division by zero. The state machine
  panics; the processor flag is not recomputed and the listener is not closed.
\<close>

theorem removing_last_replica_panics:
  "handleRemoveNode smLast (removeNodeCommand 0) = Inl (Panic ''integer divide by zero'')"
  by (simp add: handleRemoveNode_def ReadUint32_removeNodeCommand smLast_def
      calcProcessingNode_def)

section \<open>Keys written through the state machine\<close>

lemma checkKey_ok:
  assumes "\<not> testDragon s" and "checkKey s k = Inr u"
  shows "take 8 k = AppendUint64ToBufferBE [] (shardID s)"
proof -
  from assms obtain sid off where r: "ReadUint64FromBufferBE k 0 = Inr (sid, off)"
    and "shardID s = sid"
    by (auto simp: checkKey_def split: sum.splits if_splits)
  then show ?thesis
    using ReadUint64BE_prefix [OF r] by simp
qed

lemma checkKey_prefix:
  assumes "take 8 k = AppendUint64ToBufferBE [] (shardID s)"
  shows "checkKey s k = Inr ()"
proof -
  have "k = AppendUint64ToBufferBE [] (shardID s) @ drop 8 k"
    using append_take_drop_id [of 8 k] assms by simp
  then have "ReadUint64FromBufferBE k 0 = Inr (shardID s, 8)"
    using ReadUint64BE_Append [of "[]" "shardID s" "drop 8 k"] by simp
  then show ?thesis
    by (simp add: checkKey_def)
qed

lemma checkKey_bad:
  assumes "\<not> testDragon s" and "take 8 k \<noteq> AppendUint64ToBufferBE [] (shardID s)"
  shows "\<exists>m. checkKey s k = Inl (Panic m)"
proof (cases "checkKey s k")
  case (Inl e)
  then show ?thesis
    using assms(1)
    by (auto simp: checkKey_def ReadUint64FromBufferBE_def split: sum.splits if_splits)
next
  case (Inr u)
  then show ?thesis using checkKey_ok [OF assms(1) Inr] assms(2) by simp
qed

lemma checkKey_testDragon: "testDragon s \<Longrightarrow> checkKey s k = Inr ()"
  by (simp add: checkKey_def)

lemma writePuts_Inr:
  "writePuts s batch kvs = Inr b \<Longrightarrow> b = batch @ map (\<lambda>kv. PebbleSet (Key kv) (Value kv)) kvs"
proof (induction kvs arbitrary: batch)
  case Nil
  then show ?case by simp
next
  case (Cons kv kvs)
  from Cons.prems have "writePuts s (batch @ [PebbleSet (Key kv) (Value kv)]) kvs = Inr b"
    by (simp split: sum.splits)
  from Cons.IH [OF this] show ?case by simp
qed

lemma writePuts_checked:
  "writePuts s batch kvs = Inr b \<Longrightarrow> kv \<in> set kvs \<Longrightarrow> \<exists>u. checkKey s (Key kv) = Inr u"
  by (induction kvs arbitrary: batch) (auto split: sum.splits)

lemma writePuts_all_ok:
  "(\<And>kv. kv \<in> set kvs \<Longrightarrow> checkKey s (Key kv) = Inr ()) \<Longrightarrow>
   writePuts s batch kvs = Inr (batch @ map (\<lambda>kv. PebbleSet (Key kv) (Value kv)) kvs)"
  by (induction kvs arbitrary: batch) auto

lemma writePuts_Inl:
  "writePuts s batch kvs = Inl e \<Longrightarrow> \<exists>kv \<in> set kvs. checkKey s (Key kv) = Inl e"
  by (induction kvs arbitrary: batch) (auto split: sum.splits)

lemma writeDeletes_Inr:
  "writeDeletes s batch ks = Inr b \<Longrightarrow> b = batch @ map PebbleDelete ks"
proof (induction ks arbitrary: batch)
  case Nil
  then show ?case by simp
next
  case (Cons k ks)
  from Cons.prems have "writeDeletes s (batch @ [PebbleDelete k]) ks = Inr b"
    by (simp split: sum.splits)
  from Cons.IH [OF this] show ?case by simp
qed

lemma writeDeletes_checked:
  "writeDeletes s batch ks = Inr b \<Longrightarrow> k \<in> set ks \<Longrightarrow> \<exists>u. checkKey s k = Inr u"
  by (induction ks arbitrary: batch) (auto split: sum.splits)

lemma writeDeletes_all_ok:
  "(\<And>k. k \<in> set ks \<Longrightarrow> checkKey s k = Inr ()) \<Longrightarrow>
   writeDeletes s batch ks = Inr (batch @ map PebbleDelete ks)"
  by (induction ks arbitrary: batch) auto

lemma writeDeletes_Inl:
  "writeDeletes s batch ks = Inl e \<Longrightarrow> \<exists>k \<in> set ks. checkKey s k = Inl e"
  by (induction ks arbitrary: batch) (auto split: sum.splits)

lemma checkKey_Inl_Panic: "checkKey s k = Inl e \<Longrightarrow> \<exists>m. e = Panic m"
  by (auto simp: checkKey_def ReadUint64FromBufferBE_def split: sum.splits if_splits)

text \<open>
  Claim C4, as amended. For a well-formed WRITE or FORWARD_WRITE payload: on a test dragon
  no key is checked and every put and delete is added to the batch. Otherwise, if every
  put key and delete key begins with the 8-byte big-endian encoding of the shard ID of the
  state machine, all of them are added to the batch, and if any key does not (it is shorter
  than 8 bytes or its first 8 bytes decode to another shard ID), the state machine panics
  and adds nothing. So outside test mode every key that reaches the batch through this path
  begins with the shard ID.
\<close>

theorem handleWrite_keys_checked:
  assumes "deserializeWriteBatch bytes spare 1 = Inr (kvs, ks)"
  shows "(testDragon s \<longrightarrow>
            handleWrite s batch bytes spare
              = Inr (batch @ map (\<lambda>kv. PebbleSet (Key kv) (Value kv)) kvs @ map PebbleDelete ks))
       \<and> (\<not> testDragon s \<longrightarrow>
            (if \<forall>k \<in> set (map Key kvs @ ks). take 8 k = AppendUint64ToBufferBE [] (shardID s)
             then handleWrite s batch bytes spare
                    = Inr (batch @ map (\<lambda>kv. PebbleSet (Key kv) (Value kv)) kvs @ map PebbleDelete ks)
             else \<exists>m. handleWrite s batch bytes spare = Inl (Panic m)))"
proof (intro conjI impI)
  assume t: "testDragon s"
  have "writePuts s batch kvs = Inr (batch @ map (\<lambda>kv. PebbleSet (Key kv) (Value kv)) kvs)"
    by (rule writePuts_all_ok) (simp add: checkKey_testDragon [OF t])
  moreover have "\<And>b. writeDeletes s b ks = Inr (b @ map PebbleDelete ks)"
    by (rule writeDeletes_all_ok) (simp add: checkKey_testDragon [OF t])
  ultimately show "handleWrite s batch bytes spare
              = Inr (batch @ map (\<lambda>kv. PebbleSet (Key kv) (Value kv)) kvs @ map PebbleDelete ks)"
    using assms by (simp add: handleWrite_def)
next
  assume t: "\<not> testDragon s"
  show "if \<forall>k \<in> set (map Key kvs @ ks). take 8 k = AppendUint64ToBufferBE [] (shardID s)
        then handleWrite s batch bytes spare
               = Inr (batch @ map (\<lambda>kv. PebbleSet (Key kv) (Value kv)) kvs @ map PebbleDelete ks)
        else \<exists>m. handleWrite s batch bytes spare = Inl (Panic m)"
  proof (cases "\<forall>k \<in> set (map Key kvs @ ks). take 8 k = AppendUint64ToBufferBE [] (shardID s)")
    case True
    have "writePuts s batch kvs = Inr (batch @ map (\<lambda>kv. PebbleSet (Key kv) (Value kv)) kvs)"
      by (rule writePuts_all_ok) (use True in \<open>auto intro: checkKey_prefix\<close>)
    moreover have "\<And>b. writeDeletes s b ks = Inr (b @ map PebbleDelete ks)"
      by (rule writeDeletes_all_ok) (use True in \<open>auto intro: checkKey_prefix\<close>)
    ultimately show ?thesis
      using assms True by (simp add: handleWrite_def)
  next
    case False
    have "\<exists>m. handleWrite s batch bytes spare = Inl (Panic m)"
    proof (cases "handleWrite s batch bytes spare")
      case (Inl e)
      then have "(\<exists>kv \<in> set kvs. checkKey s (Key kv) = Inl e) \<or> (\<exists>k \<in> set ks. checkKey s k = Inl e)"
        using assms
        by (auto simp: handleWrite_def split: sum.splits dest: writePuts_Inl writeDeletes_Inl)
      then show ?thesis using Inl checkKey_Inl_Panic by blast
    next
      case (Inr b)
      then obtain b1 where p: "writePuts s batch kvs = Inr b1" and d: "writeDeletes s b1 ks = Inr b"
        using assms by (auto simp: handleWrite_def split: sum.splits)
      have "\<forall>k \<in> set (map Key kvs @ ks). take 8 k = AppendUint64ToBufferBE [] (shardID s)"
        using writePuts_checked [OF p] writeDeletes_checked [OF d] checkKey_ok [OF t]
        by auto
      with False show ?thesis by simp
    qed
    with False show ?thesis by (simp only: if_False)
  qed
qed

lemma nat_to_le_8: "nat_to_le 8 v = [word_of_nat (v mod 256), word_of_nat (v div 256 mod 256),
   word_of_nat (v div 256 div 256 mod 256), word_of_nat (v div 256 div 256 div 256 mod 256),
   word_of_nat (v div 256 div 256 div 256 div 256 mod 256),
   word_of_nat (v div 256 div 256 div 256 div 256 div 256 mod 256),
   word_of_nat (v div 256 div 256 div 256 div 256 div 256 div 256 mod 256),
   word_of_nat (v div 256 div 256 div 256 div 256 div 256 div 256 div 256 mod 256)]"
proof -
  have "(8::nat) = Suc (Suc (Suc (Suc (Suc (Suc (Suc (Suc 0)))))))" by simp
  then show ?thesis by (simp only: nat_to_le.simps)
qed

lemma deserialize_wb5:
  "deserializeWriteBatch wb5 [] 1 = Inr ([\<lparr>Key = [0,0,0,0,0,0,0,5,9], Value = [7]\<rparr>], [[0,0,0,0,0,0,0,5]])"
  by (simp add: deserializeWriteBatch_def wb5_def ReadUint32FromBufferLE_def slice_def)

lemma deserialize_wb6:
  "deserializeWriteBatch wb6 [] 1 = Inr ([\<lparr>Key = [0,0,0,0,0,0,0,6], Value = [7]\<rparr>], [])"
  by (simp add: deserializeWriteBatch_def wb6_def ReadUint32FromBufferLE_def slice_def)

lemma BE_5: "AppendUint64ToBufferBE [] 5 = [0,0,0,0,0,0,0,5]"
  by (simp add: AppendUint64ToBufferBE_def nat_to_le_8)

theorem handleWrite_keys_checked_witness:
  "handleWrite sm5 [] wb5 [] = Inr [PebbleSet [0,0,0,0,0,0,0,5,9] [7], PebbleDelete [0,0,0,0,0,0,0,5]]
   \<and> (\<exists>m. handleWrite sm5 [] wb6 [] = Inl (Panic m))
   \<and> handleWrite (sm5\<lparr>testDragon := True\<rparr>) [] wb6 [] = Inr [PebbleSet [0,0,0,0,0,0,0,6] [7]]"
proof -
  have n: "\<not> testDragon sm5" and t: "testDragon (sm5\<lparr>testDragon := True\<rparr>)"
    and sid: "shardID sm5 = 5"
    by (simp_all add: sm5_def)
  have a: "handleWrite sm5 [] wb5 []
           = Inr [PebbleSet [0,0,0,0,0,0,0,5,9] [7], PebbleDelete [0,0,0,0,0,0,0,5]]"
    using handleWrite_keys_checked [OF deserialize_wb5, of sm5 "[]"] n
    by (simp add: sid BE_5)
  have b: "\<exists>m. handleWrite sm5 [] wb6 [] = Inl (Panic m)"
    using handleWrite_keys_checked [OF deserialize_wb6, of sm5 "[]"] n
    by (simp add: sid BE_5)
  have c: "handleWrite (sm5\<lparr>testDragon := True\<rparr>) [] wb6 [] = Inr [PebbleSet [0,0,0,0,0,0,0,6] [7]]"
    using handleWrite_keys_checked [OF deserialize_wb6, of "sm5\<lparr>testDragon := True\<rparr>" "[]"] t
    by simp
  from a b c show ?thesis by blast
qed

text \<open>
  The claim as stated fails twice. On a test dragon a key of shard 6 is written on shard 5.
  And both keys that \<open>QueueForRemoteSend\<close> adds to the batch of shard 1000 (the forwarder
  entry and the forwarder sequence) begin with a little-endian table ID, not with the shard
  ID, so \<open>checkKey\<close> on shard 1000 panics on each of them.
\<close>

lemma forward_keys:
  "QueueForRemoteSend Inr pe0 1001 [42] 1000 7 (NewWriteBatch 1000 False)
     = Inr (pe0\<lparr>forwardSequences := [1000 \<mapsto> 2]\<rparr>,
            \<lparr>ShardID = 1000, NotifyRemote = False,
              Puts = [\<lparr>Key = [1,0,0,0,0,0,0,0, 232,3,0,0,0,0,0,0, 233,3,0,0,0,0,0,0,
                              1,0,0,0,0,0,0,0, 7,0,0,0,0,0,0,0], Value = [42]\<rparr>,
                      \<lparr>Key = [2,0,0,0,0,0,0,0, 232,3,0,0,0,0,0,0], Value = [2,0,0,0,0,0,0,0]\<rparr>],
              Deletes = []\<rparr>)"
  by (simp add: QueueForRemoteSend_def nextForwardSequence_def pe0_def cluster0_def
      genForwardSequenceKey_def ForwarderSequenceTableID_def ForwarderTableID_def
      AppendUint64ToBufferLittleEndian_def nat_to_le_8 updateNextForwardSequence_def
      AddPut_def NewWriteBatch_def Let_def)

theorem forwarder_key_fails_checkKey:
  "handleWrite (sm5\<lparr>testDragon := True\<rparr>) [] wb6 [] = Inr [PebbleSet [0,0,0,0,0,0,0,6] [7]]
   \<and> (case QueueForRemoteSend Inr pe0 1001 [42] 1000 7 (NewWriteBatch 1000 False) of
        Inl e \<Rightarrow> False
      | Inr (p, b) \<Rightarrow>
          map (\<lambda>kv. checkKey (sm5\<lparr>shardID := 1000\<rparr>) (Key kv)) (Puts b)
            = [Inl (Panic ''invalid key in sm write''), Inl (Panic ''invalid key in sm write'')])"
proof -
  have c: "handleWrite (sm5\<lparr>testDragon := True\<rparr>) [] wb6 [] = Inr [PebbleSet [0,0,0,0,0,0,0,6] [7]]"
    using deserialize_wb6 by (simp add: handleWrite_def checkKey_def sm5_def)
  have k1: "checkKey (sm5\<lparr>shardID := 1000\<rparr>) [1,0,0,0,0,0,0,0, 232,3,0,0,0,0,0,0, 233,3,0,0,0,0,0,0,
                              1,0,0,0,0,0,0,0, 7,0,0,0,0,0,0,0] = Inl (Panic ''invalid key in sm write'')"
    by (simp add: checkKey_def sm5_def ReadUint64FromBufferBE_def)
  have k2: "checkKey (sm5\<lparr>shardID := 1000\<rparr>) [2,0,0,0,0,0,0,0, 232,3,0,0,0,0,0,0] = Inl (Panic ''invalid key in sm write'')"
    by (simp add: checkKey_def sm5_def ReadUint64FromBufferBE_def)
  show ?thesis
    by (simp only: forward_keys c) (simp add: k1 k2)
qed

section \<open>Local scans\<close>

lemma map_upt_Suc: "map f [0..<Suc n] = f 0 # map (\<lambda>i. f (Suc i)) [0..<n]"
  by (simp add: upt_conv_Cons map_Suc_upt [symmetric] del: upt_Suc)

lemma scanLoop_spec:
  assumes "iterPairs iter = kv # rest"
    and "keyBuf iter < length mem" and "valBuf iter < length mem"
    and "keyBuf iter \<noteq> valBuf iter"
    and "bufBytes (mem ! keyBuf iter) = Key kv" and "bufBytes (mem ! valBuf iter) = Value kv"
  shows "\<exists>mem'. scanLoop limit count iter mem pairs
            = (pairs @ map (\<lambda>i. (length mem + 2 * i, length mem + 2 * i + 1))
                         [0..<scanCount limit count (length (kv # rest))], mem')
          \<and> length mem' = length mem + 2 * scanCount limit count (length (kv # rest))
          \<and> (\<forall>i < scanCount limit count (length (kv # rest)).
                 mem' ! (length mem + 2 * i) = owned (Key ((kv # rest) ! i))
                 \<and> mem' ! (length mem + 2 * i + 1) = owned (Value ((kv # rest) ! i)))
          \<and> (\<forall>a < length mem. a \<noteq> keyBuf iter \<longrightarrow> a \<noteq> valBuf iter \<longrightarrow> mem' ! a = mem ! a)"
  using assms
proof (induction rest arbitrary: kv iter mem count pairs)
  case Nil
  show ?case
  proof (cases "limit = - 1 \<or> count < limit")
    case False
    then have n: "scanCount limit count (length [kv]) = 0"
      by (simp add: scanCount_def)
    show ?thesis
      unfolding n using False by (subst scanLoop.simps) simp
  next
    case True
    then have n: "scanCount limit count (length [kv]) = 1"
      by (auto simp: scanCount_def)
    show ?thesis
      unfolding n using True Nil
      by (subst scanLoop.simps)
         (simp add: IterKey_def IterValue_def CopyByteSlice_def alloc_def IterNext_def
            IterValid_def position_def owned_def nth_append Let_def)
  qed
next
  case (Cons kv' rest)
  let ?L = "length mem"
  show ?case
  proof (cases "limit = - 1 \<or> count < limit")
    case False
    then have n: "scanCount limit count (length (kv # kv' # rest)) = 0"
      by (simp add: scanCount_def)
    show ?thesis
      unfolding n using False by (subst scanLoop.simps) simp
  next
    case True
    let ?n' = "scanCount limit (count + 1) (length (kv' # rest))"
    have n: "scanCount limit count (length (kv # kv' # rest)) = Suc ?n'"
      using True by (auto simp: scanCount_def)
    let ?iter1 = "iter\<lparr>iterPairs := kv' # rest\<rparr>"
    let ?mem2 = "mem @ [owned (Key kv), owned (Value kv)]"
    let ?mem3 = "?mem2[keyBuf iter := \<lparr>bufOwner = IteratorView, bufBytes = Key kv'\<rparr>,
                       valBuf iter := \<lparr>bufOwner = IteratorView, bufBytes = Value kv'\<rparr>]"
    let ?pairs1 = "pairs @ [(?L, ?L + 1)]"
    have unfold: "scanLoop limit count iter mem pairs = scanLoop limit (count + 1) ?iter1 ?mem3 ?pairs1"
      using True Cons.prems
      by (subst scanLoop.simps)
         (simp add: IterKey_def IterValue_def CopyByteSlice_def alloc_def IterNext_def
            IterValid_def position_def owned_def nth_append Let_def)
    have len3: "length ?mem3 = ?L + 2" by simp
    have kb3: "bufBytes (?mem3 ! keyBuf ?iter1) = Key kv'"
      using Cons.prems(2,3,4) by (simp add: nth_list_update)
    have vb3: "bufBytes (?mem3 ! valBuf ?iter1) = Value kv'"
      using Cons.prems(2,3) by (simp add: nth_list_update)
    have "\<exists>mem'. scanLoop limit (count + 1) ?iter1 ?mem3 ?pairs1
            = (?pairs1 @ map (\<lambda>i. (length ?mem3 + 2 * i, length ?mem3 + 2 * i + 1)) [0..<?n'], mem')
          \<and> length mem' = length ?mem3 + 2 * ?n'
          \<and> (\<forall>i < ?n'.
                 mem' ! (length ?mem3 + 2 * i) = owned (Key ((kv' # rest) ! i))
                 \<and> mem' ! (length ?mem3 + 2 * i + 1) = owned (Value ((kv' # rest) ! i)))
          \<and> (\<forall>a < length ?mem3. a \<noteq> keyBuf ?iter1 \<longrightarrow> a \<noteq> valBuf ?iter1 \<longrightarrow> mem' ! a = ?mem3 ! a)"
      by (rule Cons.IH) (use Cons.prems(2,3,4) kb3 vb3 in simp_all)
    then obtain mem' where
      r: "scanLoop limit (count + 1) ?iter1 ?mem3 ?pairs1
            = (?pairs1 @ map (\<lambda>i. (?L + 2 + 2 * i, ?L + 2 + 2 * i + 1)) [0..<?n'], mem')"
      and l: "length mem' = ?L + 2 + 2 * ?n'"
      and c: "\<forall>i < ?n'. mem' ! (?L + 2 + 2 * i) = owned (Key ((kv' # rest) ! i))
                 \<and> mem' ! (?L + 2 + 2 * i + 1) = owned (Value ((kv' # rest) ! i))"
      and o: "\<forall>a < ?L + 2. a \<noteq> keyBuf iter \<longrightarrow> a \<noteq> valBuf iter \<longrightarrow> mem' ! a = ?mem3 ! a"
      unfolding len3 by auto
    have first: "mem' ! ?L = owned (Key kv)" "mem' ! (?L + 1) = owned (Value kv)"
      using o [rule_format, of ?L] o [rule_format, of "?L + 1"] Cons.prems(2,3)
      by (simp_all add: nth_append)
    have old: "\<forall>a < ?L. a \<noteq> keyBuf iter \<longrightarrow> a \<noteq> valBuf iter \<longrightarrow> mem' ! a = mem ! a"
      using o by (simp add: nth_append)
    have copies: "\<forall>i < Suc ?n'. mem' ! (?L + 2 * i) = owned (Key ((kv # kv' # rest) ! i))
                 \<and> mem' ! (?L + 2 * i + 1) = owned (Value ((kv # kv' # rest) ! i))"
    proof (intro allI impI)
      fix i assume i: "i < Suc ?n'"
      show "mem' ! (?L + 2 * i) = owned (Key ((kv # kv' # rest) ! i))
                 \<and> mem' ! (?L + 2 * i + 1) = owned (Value ((kv # kv' # rest) ! i))"
      proof (cases i)
        case 0
        then show ?thesis using first by simp
      next
        case (Suc j)
        with i have "j < ?n'" by simp
        with c have "mem' ! (?L + 2 + 2 * j) = owned (Key ((kv' # rest) ! j))
                 \<and> mem' ! (?L + 2 + 2 * j + 1) = owned (Value ((kv' # rest) ! j))" by blast
        then show ?thesis using Suc by (simp add: add.commute add.left_commute)
      qed
    qed
    have refs: "?pairs1 @ map (\<lambda>i. (?L + 2 + 2 * i, ?L + 2 + 2 * i + 1)) [0..<?n']
                = pairs @ map (\<lambda>i. (?L + 2 * i, ?L + 2 * i + 1)) [0..<Suc ?n']"
      by (simp add: map_upt_Suc del: upt_Suc)
    show ?thesis
      unfolding n unfold r refs
      using l copies old by (intro exI [of _ mem']) simp
  qed
qed

lemma refs_set:
  "set (concat (map (\<lambda>i. [b + 2 * i, b + 2 * i + 1]) [0..<n])) = {b..<b + 2 * n}"
proof (induction n)
  case 0
  then show ?case by simp
next
  case (Suc n)
  have "{b..<b + 2 * Suc n} = {b..<b + 2 * n} \<union> {b + 2 * n, b + 2 * n + 1}" by auto
  then show ?case using Suc by simp
qed

lemma refs_distinct:
  "distinct (concat (map (\<lambda>i. [b + 2 * i, b + 2 * i + 1]) [0..<n]))"
proof (induction n)
  case 0
  then show ?case by simp
next
  case (Suc n)
  then show ?case by (simp add: refs_set)
qed

lemma dropWhile_range:
  "dropWhile (\<lambda>kv. ord_class.lexordp (Key kv) start)
     (filter (\<lambda>kv. inBounds (Some start) upperBound (Key kv)) xs)
   = filter (\<lambda>kv. inBounds (Some start) upperBound (Key kv)) xs"
proof -
  have "\<And>kv. kv \<in> set (filter (\<lambda>kv. inBounds (Some start) upperBound (Key kv)) xs)
           \<Longrightarrow> \<not> ord_class.lexordp (Key kv) start"
    using lexordp_conv_lexordp_eq [of _ start]
    by (auto simp: inBounds_def)
  then show ?thesis
    by (cases "filter (\<lambda>kv. inBounds (Some start) upperBound (Key kv)) xs") simp_all
qed

lemma take_as_map_nth: "n \<le> length xs \<Longrightarrow> map (nth xs) [0..<n] = take n xs"
proof -
  assume n: "n \<le> length xs"
  have "take n xs = take n (map (nth xs) [0..<length xs])" by (simp add: map_nth)
  also have "\<dots> = map (nth xs) (take n [0..<length xs])" by (simp add: take_map)
  also have "\<dots> = map (nth xs) [0..<n]" using n by (simp add: take_upt)
  finally show ?thesis by simp
qed

lemma scanWithIter_spec:
  assumes c: "iterCloseError d = None"
  shows "\<exists>pairs mem'.
      (let (iter, mem1) = NewIter d mem (Some start) endKeyPrefix
       in scanWithIter d iter mem1 start limit) = Inr (pairs, mem')
      \<and> map (deref mem') pairs
          = (if limit = - 1 then filter (\<lambda>kv. inBounds (Some start) endKeyPrefix (Key kv)) (dbPairs d)
             else take (nat limit) (filter (\<lambda>kv. inBounds (Some start) endKeyPrefix (Key kv)) (dbPairs d)))
      \<and> ownedCopies mem mem' pairs"
proof -
  let ?range = "filter (\<lambda>kv. inBounds (Some start) endKeyPrefix (Key kv)) (dbPairs d)"
  let ?L = "length mem"
  let ?view = "\<lparr>bufOwner = IteratorView, bufBytes = []\<rparr>"
  let ?iter = "\<lparr>iterPairs = ?range, keyBuf = ?L, valBuf = Suc ?L\<rparr>"
  let ?mem1 = "mem @ [?view, ?view]"
  have new: "NewIter d mem (Some start) endKeyPrefix = (?iter, ?mem1)"
    by (simp add: NewIter_def alloc_def)
  have seek: "IterSeekGE ?iter ?mem1 start = (?iter, position ?iter ?mem1)"
    by (simp add: IterSeekGE_def dropWhile_range Let_def)
  show ?thesis
  proof (cases ?range)
    case Nil
    have "(let (iter, mem1) = NewIter d mem (Some start) endKeyPrefix
       in scanWithIter d iter mem1 start limit) = Inr ([], ?mem1)"
      using c Nil
      by (simp add: new scanWithIter_def IterSeekGE_def IterValid_def position_def Let_def)
    then show ?thesis
      using Nil by (simp add: ownedCopies_def)
  next
    case (Cons kv rest)
    let ?mem2 = "position ?iter ?mem1"
    let ?n = "scanCount limit 0 (length (kv # rest))"
    have m2: "?mem2 = mem @ [\<lparr>bufOwner = IteratorView, bufBytes = Key kv\<rparr>,
                              \<lparr>bufOwner = IteratorView, bufBytes = Value kv\<rparr>]"
      using Cons by (simp add: position_def list_update_append)
    have len2: "length ?mem2 = ?L + 2" unfolding m2 by simp
    have "\<exists>mem'. scanLoop limit 0 ?iter ?mem2 []
            = ([] @ map (\<lambda>i. (length ?mem2 + 2 * i, length ?mem2 + 2 * i + 1)) [0..<?n], mem')
          \<and> length mem' = length ?mem2 + 2 * ?n
          \<and> (\<forall>i < ?n. mem' ! (length ?mem2 + 2 * i) = owned (Key ((kv # rest) ! i))
                 \<and> mem' ! (length ?mem2 + 2 * i + 1) = owned (Value ((kv # rest) ! i)))
          \<and> (\<forall>a < length ?mem2. a \<noteq> keyBuf ?iter \<longrightarrow> a \<noteq> valBuf ?iter \<longrightarrow> mem' ! a = ?mem2 ! a)"
      unfolding m2 by (rule scanLoop_spec) (simp_all add: Cons nth_append)
    then obtain mem' where
      r: "scanLoop limit 0 ?iter ?mem2 []
            = (map (\<lambda>i. (?L + 2 + 2 * i, ?L + 2 + 2 * i + 1)) [0..<?n], mem')"
      and l: "length mem' = ?L + 2 + 2 * ?n"
      and cp: "\<forall>i < ?n. mem' ! (?L + 2 + 2 * i) = owned (Key ((kv # rest) ! i))
                 \<and> mem' ! (?L + 2 + 2 * i + 1) = owned (Value ((kv # rest) ! i))"
      and o: "\<forall>a < ?L + 2. a \<noteq> ?L \<longrightarrow> a \<noteq> Suc ?L \<longrightarrow> mem' ! a = ?mem2 ! a"
      unfolding len2 by auto
    let ?pairs = "map (\<lambda>i. (?L + 2 + 2 * i, ?L + 2 + 2 * i + 1)) [0..<?n]"
    have run: "(let (iter, mem1) = NewIter d mem (Some start) endKeyPrefix
       in scanWithIter d iter mem1 start limit) = Inr (?pairs, mem')"
    proof -
      have valid: "IterValid ?iter" using Cons by (simp add: IterValid_def)
      show ?thesis
        using c by (simp add: new scanWithIter_def seek valid r)
    qed
    have nle: "?n \<le> length (kv # rest)" by (simp add: scanCount_def)
    have "map (deref mem') ?pairs = map (nth (kv # rest)) [0..<?n]"
      using cp by (simp add: deref_def owned_def)
    also have "\<dots> = take ?n (kv # rest)" by (rule take_as_map_nth [OF nle])
    also have "\<dots> = (if limit = - 1 then kv # rest else take (nat limit) (kv # rest))"
      by (simp add: scanCount_def min_def)
    finally have vals: "map (deref mem') ?pairs
        = (if limit = - 1 then ?range else take (nat limit) ?range)"
      using Cons by simp
    have cc: "concat (map (\<lambda>p. [fst p, snd p]) ?pairs)
              = concat (map (\<lambda>i. [?L + 2 + 2 * i, ?L + 2 + 2 * i + 1]) [0..<?n])"
      by (simp add: comp_def)
    have own: "\<forall>a \<in> set (concat (map (\<lambda>i. [?L + 2 + 2 * i, ?L + 2 + 2 * i + 1]) [0..<?n])).
                 length mem \<le> a \<and> a < length mem' \<and> bufOwner (mem' ! a) = OwnedCopy"
      using cp l by (auto simp: owned_def)
    have old: "take ?L mem' = mem"
    proof (rule nth_equalityI)
      show "length (take ?L mem') = length mem" using l by simp
      fix a assume "a < length (take ?L mem')"
      then have a: "a < ?L" by simp
      then have "mem' ! a = ?mem2 ! a" using o by simp
      then show "take ?L mem' ! a = mem ! a" using a by (simp add: m2 nth_append)
    qed
    have "ownedCopies mem mem' ?pairs"
      unfolding ownedCopies_def cc
      using refs_distinct [of "?L + 2" ?n] own old by simp
    with run vals show ?thesis by blast
  qed
qed

text \<open>
  Claim C9. \<open>LocalScan\<close> and \<open>LocalScanWithSnapshot\<close> called with a nil start prefix
  panic (they do not return an error), whatever the other arguments. With a non-nil start
  prefix, and an iterator that closes without error, both return the same pairs: with limit
  \<open>-1\<close> every pair of the range, otherwise the first \<open>limit\<close> of them. The slices
  returned are owned copies: read in the memory after the scan they hold the keys and
  values of the stored pairs, no two of them share a buffer, each is a buffer allocated by
  the scan and owned by the caller, none is a buffer of the iterator, and the buffers that
  existed before the scan are unchanged.
\<close>

theorem LocalScan_nil_prefix_panics:
  "DragonLocalScan d mem None endKeyPrefix limit = Inl (Panic ''startKeyPrefix cannot be nil'')
   \<and> LocalScanWithSnapshot sn mem None endKeyPrefix limit = Inl (Panic ''startKeyPrefix cannot be nil'')
   \<and> (iterCloseError d = None \<longrightarrow>
        (\<exists>pairs mem'.
            DragonLocalScan d mem (Some start) endKeyPrefix limit = Inr (pairs, mem')
            \<and> LocalScanWithSnapshot (DragonSnapshot d) mem (Some start) endKeyPrefix limit = Inr (pairs, mem')
            \<and> map (deref mem') pairs
                = (if limit = - 1
                   then filter (\<lambda>kv. inBounds (Some start) endKeyPrefix (Key kv)) (dbPairs d)
                   else take (nat limit)
                          (filter (\<lambda>kv. inBounds (Some start) endKeyPrefix (Key kv)) (dbPairs d)))
            \<and> ownedCopies mem mem' pairs))"
proof (intro conjI impI)
  show "DragonLocalScan d mem None endKeyPrefix limit = Inl (Panic ''startKeyPrefix cannot be nil'')"
    by (simp add: DragonLocalScan_def)
  show "LocalScanWithSnapshot sn mem None endKeyPrefix limit = Inl (Panic ''startKeyPrefix cannot be nil'')"
    by (simp add: LocalScanWithSnapshot_def)
next
  assume c: "iterCloseError d = None"
  from scanWithIter_spec [OF c, of mem start endKeyPrefix limit] obtain pairs mem' where
    r: "(let (iter, mem1) = NewIter d mem (Some start) endKeyPrefix
       in scanWithIter d iter mem1 start limit) = Inr (pairs, mem')"
    and v: "map (deref mem') pairs
          = (if limit = - 1 then filter (\<lambda>kv. inBounds (Some start) endKeyPrefix (Key kv)) (dbPairs d)
             else take (nat limit) (filter (\<lambda>kv. inBounds (Some start) endKeyPrefix (Key kv)) (dbPairs d)))"
    and o: "ownedCopies mem mem' pairs"
    by blast
  have a: "DragonLocalScan d mem (Some start) endKeyPrefix limit = Inr (pairs, mem')"
    using r by (simp add: DragonLocalScan_def)
  have b: "LocalScanWithSnapshot (DragonSnapshot d) mem (Some start) endKeyPrefix limit = Inr (pairs, mem')"
    using r by (simp add: LocalScanWithSnapshot_def split: prod.splits)
  from a b v o show "\<exists>pairs mem'.
            DragonLocalScan d mem (Some start) endKeyPrefix limit = Inr (pairs, mem')
            \<and> LocalScanWithSnapshot (DragonSnapshot d) mem (Some start) endKeyPrefix limit = Inr (pairs, mem')
            \<and> map (deref mem') pairs
                = (if limit = - 1
                   then filter (\<lambda>kv. inBounds (Some start) endKeyPrefix (Key kv)) (dbPairs d)
                   else take (nat limit)
                          (filter (\<lambda>kv. inBounds (Some start) endKeyPrefix (Key kv)) (dbPairs d)))
            \<and> ownedCopies mem mem' pairs"
    by blast
qed

lemma range_db3:
  "filter (\<lambda>kv. inBounds (Some [1]) (Some [2]) (Key kv)) (dbPairs db3)
     = [\<lparr>Key = [1, 0], Value = [10]\<rparr>, \<lparr>Key = [1, 5], Value = [11]\<rparr>]"
  by (simp add: db3_def inBounds_def)

lemma scan_db3:
  "DragonLocalScan db3 [] (Some [1]) (Some [2]) (- 1)
     = Inr ([(2, 3), (4, 5)],
            [\<lparr>bufOwner = IteratorView, bufBytes = [1, 5]\<rparr>,
             \<lparr>bufOwner = IteratorView, bufBytes = [11]\<rparr>,
             \<lparr>bufOwner = OwnedCopy, bufBytes = [1, 0]\<rparr>,
             \<lparr>bufOwner = OwnedCopy, bufBytes = [10]\<rparr>,
             \<lparr>bufOwner = OwnedCopy, bufBytes = [1, 5]\<rparr>,
             \<lparr>bufOwner = OwnedCopy, bufBytes = [11]\<rparr>])"
proof -
  have c: "iterCloseError db3 = None" by (simp add: db3_def)
  show ?thesis
    by (simp add: DragonLocalScan_def NewIter_def alloc_def range_db3 scanWithIter_def
        IterSeekGE_def IterValid_def position_def scanLoop.simps IterKey_def IterValue_def
        CopyByteSlice_def IterNext_def Let_def c)
qed

theorem LocalScan_nil_prefix_panics_witness:
  "DragonLocalScan db3 [] None (Some [2]) 1 = Inl (Panic ''startKeyPrefix cannot be nil'')
   \<and> LocalScanWithSnapshot (DragonSnapshot db3) [] None (Some [2]) 1
       = Inl (Panic ''startKeyPrefix cannot be nil'')
   \<and> (\<exists>pairs mem'.
         DragonLocalScan db3 [] (Some [1]) (Some [2]) (- 1) = Inr (pairs, mem')
         \<and> LocalScanWithSnapshot (DragonSnapshot db3) [] (Some [1]) (Some [2]) (- 1) = Inr (pairs, mem')
         \<and> pairs = [(2, 3), (4, 5)]
         \<and> map (deref mem') pairs = [\<lparr>Key = [1, 0], Value = [10]\<rparr>, \<lparr>Key = [1, 5], Value = [11]\<rparr>]
         \<and> ownedCopies [] mem' pairs)"
proof -
  have c: "iterCloseError db3 = None" by (simp add: db3_def)
  from LocalScan_nil_prefix_panics [of db3 "[]" "Some [2]" 1 "DragonSnapshot db3" "[1]"]
  have p: "DragonLocalScan db3 [] None (Some [2]) 1 = Inl (Panic ''startKeyPrefix cannot be nil'')"
    and q: "LocalScanWithSnapshot (DragonSnapshot db3) [] None (Some [2]) 1
       = Inl (Panic ''startKeyPrefix cannot be nil'')"
    by simp_all
  from LocalScan_nil_prefix_panics [of db3 "[]" "Some [2]" "- 1" "DragonSnapshot db3" "[1]"] c
  obtain pairs mem' where
    a: "DragonLocalScan db3 [] (Some [1]) (Some [2]) (- 1) = Inr (pairs, mem')"
    and b: "LocalScanWithSnapshot (DragonSnapshot db3) [] (Some [1]) (Some [2]) (- 1) = Inr (pairs, mem')"
    and v: "map (deref mem') pairs = filter (\<lambda>kv. inBounds (Some [1]) (Some [2]) (Key kv)) (dbPairs db3)"
    and o: "ownedCopies [] mem' pairs"
    by auto
  from a have e: "pairs = [(2, 3), (4, 5)]" by (simp add: scan_db3)
  from p q a b e v o show ?thesis by (simp add: range_db3)
qed

text \<open>
  A scan whose two bounds are the same prefix ranges over no pair: the upper bound is
  exclusive. This is the scan that \<open>handleReceivedRows\<close> and \<open>transferData\<close> ask for
  when the cluster is a Dragon.
\<close>

lemma inBounds_equal_bounds: "\<not> inBounds (Some p) (Some p) k"
  using lexordp_conv_lexordp_eq [of k p] by (auto simp: inBounds_def)

lemma DragonLocalScan_equal_bounds:
  assumes "iterCloseError d = None"
  shows "\<exists>mem'. DragonLocalScan d mem (Some p) (Some p) limit = Inr ([], mem')"
proof -
  from scanWithIter_spec [OF assms, of mem p "Some p" limit] obtain pairs mem' where
    r: "(let (iter, mem1) = NewIter d mem (Some p) (Some p)
       in scanWithIter d iter mem1 p limit) = Inr (pairs, mem')"
    and v: "map (deref mem') pairs
          = (if limit = - 1 then filter (\<lambda>kv. inBounds (Some p) (Some p) (Key kv)) (dbPairs d)
             else take (nat limit) (filter (\<lambda>kv. inBounds (Some p) (Some p) (Key kv)) (dbPairs d)))"
    by blast
  from v have "pairs = []" by (simp add: inBounds_equal_bounds split: if_splits)
  with r show ?thesis by (simp add: DragonLocalScan_def)
qed

section \<open>Receiving forwarded rows\<close>



lemma running_update:
  "running stored (st\<lparr>receivingSequences := AList.update s q (receivingSequences st)\<rparr>)
     = (running stored st)(s := q)"
  by (rule ext) (simp add: running_def update_conv')



lemma fresh_Cons_0: "fresh lst (kv # kvs) 0 \<longleftrightarrow> lst (sendingShardOf kv) < receivedSeqOf kv"
  by (simp add: fresh_def)

lemma fresh_Cons_Suc:
  "fresh lst (kv # kvs) (Suc i) \<longleftrightarrow>
     fresh (if lst (sendingShardOf kv) < receivedSeqOf kv
            then lst(sendingShardOf kv := receivedSeqOf kv) else lst) kvs i"
proof -
  let ?s = "sendingShardOf (kvs ! i)" and ?q = "receivedSeqOf (kvs ! i)"
  have split: "\<And>P. (\<forall>j < Suc i. P j) \<longleftrightarrow> P 0 \<and> (\<forall>j < i. P (Suc j))"
    by (auto simp: less_Suc_eq_0_disj)
  have "fresh lst (kv # kvs) (Suc i) \<longleftrightarrow>
      lst ?s < ?q \<and> (sendingShardOf kv = ?s \<longrightarrow> receivedSeqOf kv < ?q)
      \<and> (\<forall>j < i. sendingShardOf (kvs ! j) = ?s \<longrightarrow> receivedSeqOf (kvs ! j) < ?q)"
    unfolding fresh_def split by simp
  also have "\<dots> \<longleftrightarrow> fresh (if lst (sendingShardOf kv) < receivedSeqOf kv
            then lst(sendingShardOf kv := receivedSeqOf kv) else lst) kvs i"
    unfolding fresh_def by (auto simp: not_less)
  finally show ?thesis .
qed

lemma taken_positions:
  "taken lst kvs = map (nth kvs) (filter (fresh lst kvs) [0..<length kvs])"
proof (induction kvs arbitrary: lst)
  case Nil
  then show ?case by simp
next
  case (Cons kv kvs)
  let ?lst1 = "if lst (sendingShardOf kv) < receivedSeqOf kv
            then lst(sendingShardOf kv := receivedSeqOf kv) else lst"
  have upt: "[0..<length (kv # kvs)] = 0 # map Suc [0..<length kvs]"
    by (simp add: upt_conv_Cons map_Suc_upt del: upt_Suc)
  have tl: "map (nth (kv # kvs)) (filter (fresh lst (kv # kvs)) (map Suc [0..<length kvs]))
        = map (nth kvs) (filter (fresh ?lst1 kvs) [0..<length kvs])"
    by (simp only: filter_map map_map comp_def fresh_Cons_Suc nth_Cons_Suc)
  show ?case
    unfolding upt
    by (simp only: filter.simps list.map fresh_Cons_0 tl taken.simps Cons.IH nth_Cons_0 split: if_splits)
       (simp add: fun_upd_def)
qed

lemma lastTaken_ge: "lst s \<le> lastTaken lst kvs s"
proof (induction kvs arbitrary: lst)
  case Nil
  then show ?case by simp
next
  case (Cons kv kvs)
  show ?case
  proof (cases "lst (sendingShardOf kv) < receivedSeqOf kv")
    case True
    have "lst s \<le> (lst(sendingShardOf kv := receivedSeqOf kv)) s" using True by auto
    also have "\<dots> \<le> lastTaken (lst(sendingShardOf kv := receivedSeqOf kv)) kvs s" by (rule Cons.IH)
    finally show ?thesis using True by simp
  next
    case False
    then show ?thesis using Cons.IH [of lst] by simp
  qed
qed

lemma taken_le_lastTaken:
  "kv \<in> set (taken lst kvs) \<Longrightarrow> receivedSeqOf kv \<le> lastTaken lst kvs (sendingShardOf kv)"
proof (induction kvs arbitrary: lst)
  case Nil
  then show ?case by simp
next
  case (Cons a kvs)
  show ?case
  proof (cases "lst (sendingShardOf a) < receivedSeqOf a")
    case True
    let ?l = "lst(sendingShardOf a := receivedSeqOf a)"
    from Cons.prems True have "kv = a \<or> kv \<in> set (taken ?l kvs)" by simp
    then show ?thesis
    proof
      assume "kv = a"
      then have "receivedSeqOf kv = ?l (sendingShardOf kv)" by simp
      also have "\<dots> \<le> lastTaken ?l kvs (sendingShardOf kv)" by (rule lastTaken_ge)
      finally show ?thesis using True by simp
    next
      assume "kv \<in> set (taken ?l kvs)"
      from Cons.IH [OF this] show ?thesis using True by (simp add: fun_upd_def)
    qed
  next
    case False
    then show ?thesis using Cons.IH [of lst] Cons.prems by simp
  qed
qed

lemma lastTaken_unchanged:
  "s \<notin> sendingShardOf ` set (taken lst kvs) \<Longrightarrow> lastTaken lst kvs s = lst s"
proof (induction kvs arbitrary: lst)
  case Nil
  then show ?case by simp
next
  case (Cons a kvs)
  show ?case
  proof (cases "lst (sendingShardOf a) < receivedSeqOf a")
    case True
    with Cons.prems have ne: "s \<noteq> sendingShardOf a"
      and rest: "s \<notin> sendingShardOf ` set (taken (lst(sendingShardOf a := receivedSeqOf a)) kvs)"
      by auto
    from Cons.IH [OF rest] ne True show ?thesis by (simp add: fun_upd_def)
  next
    case False
    with Cons.prems have "s \<notin> sendingShardOf ` set (taken lst kvs)" by simp
    from Cons.IH [OF this] False show ?thesis by simp
  qed
qed

lemma lastTaken_is_taken:
  "s \<in> sendingShardOf ` set (taken lst kvs) \<Longrightarrow>
   \<exists>kv \<in> set (taken lst kvs). sendingShardOf kv = s \<and> receivedSeqOf kv = lastTaken lst kvs s"
proof (induction kvs arbitrary: lst)
  case Nil
  then show ?case by simp
next
  case (Cons a kvs)
  show ?case
  proof (cases "lst (sendingShardOf a) < receivedSeqOf a")
    case True
    note t = True
    show ?thesis
    proof (cases "s \<in> sendingShardOf ` set (taken (lst(sendingShardOf a := receivedSeqOf a)) kvs)")
      case True
      from Cons.IH [OF this] obtain kv
        where "kv \<in> set (taken (lst(sendingShardOf a := receivedSeqOf a)) kvs)"
          and "sendingShardOf kv = s"
          and "receivedSeqOf kv = lastTaken (lst(sendingShardOf a := receivedSeqOf a)) kvs s"
        by blast
      then show ?thesis using t by (auto simp: fun_upd_def)
    next
      case False
      from lastTaken_unchanged [OF False]
      have same: "lastTaken (lst(sendingShardOf a := receivedSeqOf a)) kvs s
                  = (lst(sendingShardOf a := receivedSeqOf a)) s" .
      from False Cons.prems t have "sendingShardOf a = s" by auto
      then show ?thesis using t same by (auto simp: fun_upd_def)
    qed
  next
    case False
    then show ?thesis using Cons.IH [of lst] Cons.prems by simp
  qed
qed



lemma handleReceivedRows_scan:
  "handleReceivedRows c h r
     = (case LocalScan c (receiverPrefix r) (receiverPrefix r) 100 of
          Inl e \<Rightarrow> Inl e
        | Inr kvPairs \<Rightarrow> handleScanned c h r kvPairs)"
  by (simp add: handleReceivedRows_def receiverPrefix_def Let_def)









lemma set_taken: "set (taken stored kvs) = (nth kvs) ` set (handedPositions stored kvs)"
  by (simp add: taken_positions handedPositions_def)

lemma handedPositions_less: "i \<in> set (handedPositions stored kvs) \<Longrightarrow> i < length kvs"
  by (simp add: handedPositions_def)

lemma handedPositions_fresh: "i \<in> set (handedPositions stored kvs) \<Longrightarrow> fresh stored kvs i"
  by (simp add: handedPositions_def)

text \<open>
  On a cluster that scans as Dragon does, the scan of \<open>handleReceivedRows\<close> ranges from
  the receiver prefix up to the same prefix, exclusive, and returns no pair, whatever the
  store holds: nothing is handed on and an empty batch is written. The properties below
  are about the body of the function on the pairs of the receiver prefix.
\<close>

lemma storeCluster_scans_as_Dragon:
  assumes "dbPairs d = pairs" and "iterCloseError d = None"
  shows "\<exists>refs mem'. DragonLocalScan d mem (Some lo) (Some hi) n = Inr (refs, mem')
           \<and> LocalScan (storeCluster pairs) lo hi n = Inr (map (deref mem') refs)"
proof -
  from scanWithIter_spec [OF assms(2), of mem lo "Some hi" n] obtain refs mem' where
    r: "(let (iter, mem1) = NewIter d mem (Some lo) (Some hi)
       in scanWithIter d iter mem1 lo n) = Inr (refs, mem')"
    and v: "map (deref mem') refs
          = (if n = - 1 then filter (\<lambda>kv. inBounds (Some lo) (Some hi) (Key kv)) (dbPairs d)
             else take (nat n) (filter (\<lambda>kv. inBounds (Some lo) (Some hi) (Key kv)) (dbPairs d)))"
    by blast
  have "DragonLocalScan d mem (Some lo) (Some hi) n = Inr (refs, mem')"
    using r by (simp add: DragonLocalScan_def)
  moreover have "LocalScan (storeCluster pairs) lo hi n = Inr (map (deref mem') refs)"
    using v assms(1) by (simp add: storeCluster_def Let_def)
  ultimately show ?thesis by blast
qed

lemma LocalScan_storeCluster_equal_bounds: "LocalScan (storeCluster pairs) p p n = Inr []"
  by (simp add: storeCluster_def inBounds_equal_bounds)

lemma WriteBatchTo_storeCluster: "WriteBatchTo (storeCluster pairs) b = None"
  by (simp add: storeCluster_def)

lemma handleReceivedRows_storeCluster:
  "handleReceivedRows (storeCluster pairs) h r = Inr ([], NewWriteBatch r False)"
  by (simp add: handleReceivedRows_scan LocalScan_storeCluster_equal_bounds handleScanned_def
      WriteBatchTo_storeCluster)


















section \<open>Retry and timeouts\<close>

lemma finishTime_start: "finishTime f k = startTime f k + snd (f k)"
  by (cases k) simp_all

lemma retryLoop_not_ready:
  assumes "\<forall>j < n. fst (f j) = Inl ErrClusterNotReady \<and> int (finishTime f j) < timeout"
  shows "retryLoop f timeout 0 0 = retryLoop f timeout n (startTime f n)"
  using assms
proof (induction n)
  case 0
  then show ?case by simp
next
  case (Suc n)
  then have ih: "retryLoop f timeout 0 0 = retryLoop f timeout n (startTime f n)"
    and nr: "fst (f n) = Inl ErrClusterNotReady" and t: "int (finishTime f n) < timeout"
    by simp_all
  obtain res took where fn: "f n = (res, took)" by (cases "f n")
  with nr have res: "res = Inl ErrClusterNotReady" by simp
  from t fn have t': "int (startTime f n + took) < timeout"
    by (simp add: finishTime_start)
  have "retryLoop f timeout n (startTime f n)
        = retryLoop f timeout (Suc n) (startTime f n + took + retryDelay)"
    using t' by (subst retryLoop.simps) (simp add: fn res)
  also have "startTime f n + took + retryDelay = startTime f (Suc n)"
    using fn by (simp add: finishTime_start)
  finally show ?case using ih by simp
qed

lemma retryLoop_last:
  "retryLoop f timeout n (startTime f n) =
     (case fst (f n) of
        Inr r \<Rightarrow> \<lparr>returned = Inr r, calls = Suc n, sleeps = n\<rparr>
      | Inl err \<Rightarrow>
          if err \<noteq> ErrClusterNotReady
          then \<lparr>returned = Inl err, calls = Suc n, sleeps = n\<rparr>
          else if int (finishTime f n) \<ge> timeout
          then \<lparr>returned = Inl err, calls = Suc n, sleeps = n\<rparr>
          else retryLoop f timeout (Suc n) (startTime f (Suc n)))"
  by (subst retryLoop.simps)
     (auto simp: finishTime_start MaybeAddStack_def split: prod.splits sum.splits)

lemma proposals_nth:
  "i < length ops \<Longrightarrow>
   proposals acc ops ! i =
     (let t = (if fst (ops ! i) \<in> acc \<union> fst ` set (take i ops)
               then dragonCallTimeout else initialShardTimeout)
      in executeWithRetry (snd (ops ! i) t) t)"
proof (induction ops arbitrary: acc i)
  case Nil
  then show ?case by simp
next
  case (Cons op ops)
  obtain cid sp where op: "op = (cid, sp)" by (cases op)
  show ?case
  proof (cases i)
    case 0
    then show ?thesis
      by (simp add: op proposeWithRetry_def getTimeout_def Let_def)
  next
    case (Suc j)
    with Cons.prems have j: "j < length ops" by simp
    have "proposals acc (op # ops) ! i = proposals (insert cid acc) ops ! j"
      by (simp add: op Suc proposeWithRetry_def getTimeout_def Let_def)
    also note Cons.IH [OF j, of "insert cid acc"]
    finally show ?thesis
      by (simp add: op Suc Let_def)
  qed
qed

text \<open>
  Claim C8. Suppose the first \<open>n\<close> calls of the operation fail with
  \<open>ErrClusterNotReady\<close>, each returning before the deadline. Then each of them is followed
  by a sleep of \<open>retryDelay\<close> and another call, and call \<open>n\<close> decides: a result is returned;
  any other error is returned at once, with no further sleep or call; and
  \<open>ErrClusterNotReady\<close> at or after the deadline is returned as the error. In a sequence of
  proposals after startup, a proposal uses the initial shard timeout (15 minutes) as its
  deadline when no earlier proposal went to the same cluster ID, and the call timeout
  (10 seconds) otherwise.
\<close>

theorem executeWithRetry_policy:
  assumes "\<forall>j < n. fst (f j) = Inl ErrClusterNotReady \<and> int (finishTime f j) < timeout"
  shows "(\<forall>r. fst (f n) = Inr r \<longrightarrow>
            executeWithRetry f timeout = \<lparr>returned = Inr r, calls = Suc n, sleeps = n\<rparr>)
       \<and> (\<forall>e. fst (f n) = Inl e \<and> e \<noteq> ErrClusterNotReady \<longrightarrow>
            executeWithRetry f timeout = \<lparr>returned = Inl e, calls = Suc n, sleeps = n\<rparr>)
       \<and> (fst (f n) = Inl ErrClusterNotReady \<and> timeout \<le> int (finishTime f n) \<longrightarrow>
            executeWithRetry f timeout
              = \<lparr>returned = Inl ErrClusterNotReady, calls = Suc n, sleeps = n\<rparr>)
       \<and> (\<forall>i < length ops.
            proposals {} ops ! i =
              (if fst (ops ! i) \<in> fst ` set (take i ops)
               then executeWithRetry (snd (ops ! i) dragonCallTimeout) dragonCallTimeout
               else executeWithRetry (snd (ops ! i) initialShardTimeout) initialShardTimeout))"
proof -
  have e: "executeWithRetry f timeout = retryLoop f timeout n (startTime f n)"
    unfolding executeWithRetry_def by (rule retryLoop_not_ready [OF assms])
  show ?thesis
    unfolding e
    by (subst (1 2 3) retryLoop_last) (auto simp: proposals_nth Let_def)
qed

lemma all_less_3: "(\<forall>j < (3::nat). P j) \<longleftrightarrow> P 0 \<and> P 1 \<and> P 2"
proof -
  have "\<And>j::nat. j < 3 \<longleftrightarrow> j = 0 \<or> j = 1 \<or> j = 2" by auto
  then show ?thesis by auto
qed

lemma notReadyTwice_run:
  "\<forall>j < Suc (Suc 0). fst (notReadyTwice j) = Inl ErrClusterNotReady
              \<and> int (finishTime notReadyTwice j) < dragonCallTimeout"
  "fst (notReadyTwice (Suc (Suc 0))) = Inr ()"
  by (simp_all add: less_Suc_eq notReadyTwice_def dragonCallTimeout_def retryDelay_def)

lemma failsSecond_run:
  "\<forall>j < Suc 0. fst (failsSecond j) = Inl ErrClusterNotReady
              \<and> int (finishTime failsSecond j) < dragonCallTimeout"
  "fst (failsSecond (Suc 0)) = Inl (Err ''shard closed'') \<and> Err ''shard closed'' \<noteq> ErrClusterNotReady"
  by (simp_all add: failsSecond_def dragonCallTimeout_def ErrClusterNotReady_def)

theorem executeWithRetry_policy_witness:
  "executeWithRetry notReadyTwice dragonCallTimeout
     = \<lparr>returned = Inr (), calls = Suc (Suc (Suc 0)), sleeps = Suc (Suc 0)\<rparr>
   \<and> executeWithRetry failsSecond dragonCallTimeout
     = \<lparr>returned = Inl (Err ''shard closed''), calls = Suc (Suc 0), sleeps = Suc 0\<rparr>
   \<and> executeWithRetry (neverReady dragonCallTimeout) dragonCallTimeout
     = \<lparr>returned = Inl ErrClusterNotReady, calls = Suc 0, sleeps = 0\<rparr>
   \<and> proposals {} [(1000, neverReady), (1001, neverReady), (1000, neverReady)]
     = [executeWithRetry (neverReady initialShardTimeout) initialShardTimeout,
        executeWithRetry (neverReady initialShardTimeout) initialShardTimeout,
        executeWithRetry (neverReady dragonCallTimeout) dragonCallTimeout]"
proof -
  have a: "executeWithRetry notReadyTwice dragonCallTimeout
     = \<lparr>returned = Inr (), calls = Suc (Suc (Suc 0)), sleeps = Suc (Suc 0)\<rparr>"
    using executeWithRetry_policy [OF notReadyTwice_run(1), of "[]"] notReadyTwice_run(2) by blast
  have b: "executeWithRetry failsSecond dragonCallTimeout
     = \<lparr>returned = Inl (Err ''shard closed''), calls = Suc (Suc 0), sleeps = Suc 0\<rparr>"
    using executeWithRetry_policy [OF failsSecond_run(1), of "[]"] failsSecond_run(2) by blast
  have c: "executeWithRetry (neverReady dragonCallTimeout) dragonCallTimeout
     = \<lparr>returned = Inl ErrClusterNotReady, calls = Suc 0, sleeps = 0\<rparr>"
    using executeWithRetry_policy [of 0 "neverReady dragonCallTimeout" dragonCallTimeout "[]"]
    by (simp add: neverReady_def dragonCallTimeout_def)
  have d: "proposals {} [(1000, neverReady), (1001, neverReady), (1000, neverReady)]
     = [executeWithRetry (neverReady initialShardTimeout) initialShardTimeout,
        executeWithRetry (neverReady initialShardTimeout) initialShardTimeout,
        executeWithRetry (neverReady dragonCallTimeout) dragonCallTimeout]"
  proof -
    let ?ops = "[(1000 :: u64, neverReady), (1001, neverReady), (1000, neverReady)]"
    have l: "length (proposals {} ?ops) = 3"
      by (simp add: proposeWithRetry_def getTimeout_def Let_def)
    have "proposals {} ?ops ! 0 = executeWithRetry (neverReady initialShardTimeout) initialShardTimeout"
      "proposals {} ?ops ! 1 = executeWithRetry (neverReady initialShardTimeout) initialShardTimeout"
      "proposals {} ?ops ! 2 = executeWithRetry (neverReady dragonCallTimeout) dragonCallTimeout"
      using executeWithRetry_policy [of 0 "neverReady dragonCallTimeout" dragonCallTimeout ?ops]
      by (simp_all add: all_less_3)
    then show ?thesis
      using l by (simp add: list_eq_iff_nth_eq all_less_3)
  qed
  from a b c d show ?thesis by blast
qed

section \<open>Duplicate messages at ingest\<close>

lemma getBatchLoop_step:
  assumes "int (length (msgs st)) \<le> maxRecords"
    and "msgProvider m k remaining = Inr (Some msg)"
  shows "getBatchLoop m pollTimeout maxRecords k remaining st =
     (if duplicate m msg
      then Inr (st\<lparr>offsetsToCommit := (offsetsToCommit st)(PartitionID msg \<mapsto> Offset msg + 1),
                   warnings := warnings st @ [msg]\<rparr>)
      else if pollTimeout - elapsedAfter m k \<le> 0
      then Inr (st\<lparr>offsetsToCommit := (offsetsToCommit st)(PartitionID msg \<mapsto> Offset msg + 1),
                   msgs := msgs st @ [msg]\<rparr>)
      else getBatchLoop m pollTimeout maxRecords (Suc k) (pollTimeout - elapsedAfter m k)
             (st\<lparr>offsetsToCommit := (offsetsToCommit st)(PartitionID msg \<mapsto> Offset msg + 1),
                 msgs := msgs st @ [msg]\<rparr>))"
  using assms
  by (subst getBatchLoop.simps) (simp add: Let_def duplicate_def)

lemma getBatchLoop_invariant:
  "getBatchLoop m pollTimeout maxRecords k remaining st = Inr st' \<Longrightarrow>
   (\<forall>x \<in> set (msgs st). \<not> duplicate m x) \<Longrightarrow> warnings st = [] \<Longrightarrow>
   (\<forall>x \<in> set (msgs st'). \<not> duplicate m x)
   \<and> (warnings st' = [] \<or> (\<exists>w. warnings st' = [w] \<and> duplicate m w))"
proof (induction m pollTimeout maxRecords k remaining st rule: getBatchLoop.induct)
  case (1 m pollTimeout maxRecords k remaining st)
  show ?case
  proof (cases "int (length (msgs st)) \<le> maxRecords")
    case False
    with "1.prems" show ?thesis
      by (subst (asm) getBatchLoop.simps) auto
  next
    case True
    show ?thesis
    proof (cases "msgProvider m k remaining")
      case (Inl e)
      with True "1.prems"(1) show ?thesis
        by (subst (asm) getBatchLoop.simps) simp
    next
      case (Inr r)
      show ?thesis
      proof (cases r)
        case None
        with True Inr "1.prems" show ?thesis
          by (subst (asm) getBatchLoop.simps) auto
      next
        case (Some msg)
        note fetched = Inr [unfolded Some]
        note step = getBatchLoop_step [OF True fetched, of pollTimeout]
        show ?thesis
        proof (cases "duplicate m msg")
          case True
          with step "1.prems" show ?thesis by auto
        next
          case nd: False
          show ?thesis
          proof (cases "pollTimeout - elapsedAfter m k \<le> 0")
            case True
            with step nd "1.prems" show ?thesis by auto
          next
            case False
            let ?st1 = "st\<lparr>offsetsToCommit := (offsetsToCommit st)(PartitionID msg \<mapsto> Offset msg + 1)\<rparr>"
            let ?st2 = "?st1\<lparr>msgs := msgs ?st1 @ [msg]\<rparr>"
            have eq: "?st2 = st\<lparr>offsetsToCommit := (offsetsToCommit st)(PartitionID msg \<mapsto> Offset msg + 1),
                 msgs := msgs st @ [msg]\<rparr>"
              by simp
            have "getBatchLoop m pollTimeout maxRecords (Suc k) (pollTimeout - elapsedAfter m k)
                   (st\<lparr>offsetsToCommit := (offsetsToCommit st)(PartitionID msg \<mapsto> Offset msg + 1),
                       msgs := msgs st @ [msg]\<rparr>) = Inr st'"
              using step nd False "1.prems"(1) by simp
            then have run: "getBatchLoop m pollTimeout maxRecords (Suc k) (pollTimeout - elapsedAfter m k) ?st2 = Inr st'"
              by (simp only: eq)
            have nds: "\<not> sint (Offset msg) \<le> sint (lastSeenOffset m (PartitionID msg))"
              using nd by (simp add: duplicate_def)
            have i1: "\<forall>x \<in> set (msgs ?st2). \<not> duplicate m x"
              using "1.prems"(2) nd by simp
            have i2: "warnings ?st2 = []"
              using "1.prems"(3) by simp
            show ?thesis
              by (rule "1.IH" [OF \<open>int (length (msgs st)) \<le> maxRecords\<close> Inr Some refl refl refl nds
                  refl refl False run i1 i2])
          qed
        qed
      qed
    qed
  qed
qed

text \<open>
  Claim C6. Whenever the loop of \<open>getBatch\<close> fetches a message, it compares the offset with
  the last offset seen on the partition, which is the startup-committed offset minus 1, or -1
  when none was committed. If the offset is at most that, the message is logged as a duplicate,
  it is not appended, and \<open>getBatch\<close> returns the batch collected so far; otherwise the
  message is appended and collection goes on (or returns, when the poll timeout is used up).
  Hence a batch that \<open>getBatch\<close> returns holds no duplicate, and at most one duplicate was
  logged.
\<close>

theorem getBatch_duplicate_stops:
  "(int (length (msgs st)) \<le> maxRecords \<and> msgProvider m k remaining = Inr (Some msg) \<longrightarrow>
      getBatchLoop m pollTimeout maxRecords k remaining st =
        (if sint (Offset msg) \<le> sint (lastSeenOffset m (PartitionID msg))
         then Inr (st\<lparr>offsetsToCommit := (offsetsToCommit st)(PartitionID msg \<mapsto> Offset msg + 1),
                      warnings := warnings st @ [msg]\<rparr>)
         else if pollTimeout - elapsedAfter m k \<le> 0
         then Inr (st\<lparr>offsetsToCommit := (offsetsToCommit st)(PartitionID msg \<mapsto> Offset msg + 1),
                      msgs := msgs st @ [msg]\<rparr>)
         else getBatchLoop m pollTimeout maxRecords (Suc k) (pollTimeout - elapsedAfter m k)
                (st\<lparr>offsetsToCommit := (offsetsToCommit st)(PartitionID msg \<mapsto> Offset msg + 1),
                    msgs := msgs st @ [msg]\<rparr>)))
   \<and> lastSeenOffset m p = (case startupCommittedOffsets m p of None \<Rightarrow> - 1 | Some c \<Rightarrow> c - 1)
   \<and> (\<forall>st'. getBatch m pollTimeout maxRecords = Inr st' \<longrightarrow>
         (\<forall>x \<in> set (msgs st'). \<not> sint (Offset x) \<le> sint (lastSeenOffset m (PartitionID x)))
         \<and> (warnings st' = []
              \<or> (\<exists>w. warnings st' = [w]
                     \<and> sint (Offset w) \<le> sint (lastSeenOffset m (PartitionID w)))))"
proof -
  have step: "int (length (msgs st)) \<le> maxRecords \<and> msgProvider m k remaining = Inr (Some msg) \<longrightarrow>
      getBatchLoop m pollTimeout maxRecords k remaining st =
        (if sint (Offset msg) \<le> sint (lastSeenOffset m (PartitionID msg))
         then Inr (st\<lparr>offsetsToCommit := (offsetsToCommit st)(PartitionID msg \<mapsto> Offset msg + 1),
                      warnings := warnings st @ [msg]\<rparr>)
         else if pollTimeout - elapsedAfter m k \<le> 0
         then Inr (st\<lparr>offsetsToCommit := (offsetsToCommit st)(PartitionID msg \<mapsto> Offset msg + 1),
                      msgs := msgs st @ [msg]\<rparr>)
         else getBatchLoop m pollTimeout maxRecords (Suc k) (pollTimeout - elapsedAfter m k)
                (st\<lparr>offsetsToCommit := (offsetsToCommit st)(PartitionID msg \<mapsto> Offset msg + 1),
                    msgs := msgs st @ [msg]\<rparr>))"
    using getBatchLoop_step [of st maxRecords m k remaining msg pollTimeout]
    by (simp only: duplicate_def) blast
  have seen: "lastSeenOffset m p = (case startupCommittedOffsets m p of None \<Rightarrow> - 1 | Some c \<Rightarrow> c - 1)"
    by (simp add: lastSeenOffset_def)
  have inv: "\<forall>st'. getBatch m pollTimeout maxRecords = Inr st' \<longrightarrow>
         (\<forall>x \<in> set (msgs st'). \<not> sint (Offset x) \<le> sint (lastSeenOffset m (PartitionID x)))
         \<and> (warnings st' = []
              \<or> (\<exists>w. warnings st' = [w]
                     \<and> sint (Offset w) \<le> sint (lastSeenOffset m (PartitionID w))))"
  proof (intro allI impI)
    fix st'
    assume r: "getBatch m pollTimeout maxRecords = Inr st'"
    have "(\<forall>x \<in> set (msgs st'). \<not> duplicate m x)
        \<and> (warnings st' = [] \<or> (\<exists>w. warnings st' = [w] \<and> duplicate m w))"
      by (rule getBatchLoop_invariant [OF r [unfolded getBatch_def]]) simp_all
    then show "(\<forall>x \<in> set (msgs st'). \<not> sint (Offset x) \<le> sint (lastSeenOffset m (PartitionID x)))
         \<and> (warnings st' = []
              \<or> (\<exists>w. warnings st' = [w]
                     \<and> sint (Offset w) \<le> sint (lastSeenOffset m (PartitionID w))))"
      unfolding duplicate_def .
  qed
  from step seen inv show ?thesis by (intro conjI)
qed

lemma consumer0_facts:
  "msgProvider consumer0 0 r = Inr (Some (msgAt 5))"
  "msgProvider consumer0 (Suc 0) r = Inr (Some (msgAt 4))"
  "elapsedAfter consumer0 k = 0"
  "lastSeenOffset consumer0 0 = 4"
  by (simp_all add: consumer0_def lastSeenOffset_def)

theorem getBatch_duplicate_stops_witness:
  "getBatch consumer0 1000 10
     = Inr \<lparr>msgs = [msgAt 5], offsetsToCommit = [0 \<mapsto> 5], warnings = [msgAt 4]\<rparr>"
proof -
  let ?st0 = "\<lparr>msgs = [], offsetsToCommit = Map.empty, warnings = []\<rparr>"
  let ?st1 = "\<lparr>msgs = [msgAt 5], offsetsToCommit = [0 \<mapsto> 6], warnings = []\<rparr>"
  have first: "getBatchLoop consumer0 1000 10 0 1000 ?st0
               = getBatchLoop consumer0 1000 10 (Suc 0) 1000 ?st1"
    using getBatch_duplicate_stops [of ?st0 10 consumer0 0 1000 "msgAt 5" 1000]
    by (simp add: consumer0_facts msgAt_def)
  have second: "getBatchLoop consumer0 1000 10 (Suc 0) 1000 ?st1
               = Inr \<lparr>msgs = [msgAt 5], offsetsToCommit = [0 \<mapsto> 5], warnings = [msgAt 4]\<rparr>"
    using getBatch_duplicate_stops [of ?st1 10 consumer0 "Suc 0" 1000 "msgAt 4" 1000]
    by (simp add: consumer0_facts msgAt_def)
  show ?thesis
    unfolding getBatch_def first second ..
qed

section \<open>Rows with an existing primary key\<close>

lemma handleEntry_grows:
  assumes "handleEntry t st e = Inr st1"
  shows "\<exists>rows x puts dels.
           outRows st1 = outRows st @ rows \<and> entries st1 = entries st @ [x]
           \<and> ctxWriteBatch st1 = (ctxWriteBatch st)\<lparr>Puts := Puts (ctxWriteBatch st) @ puts,
                                                      Deletes := Deletes (ctxWriteBatch st) @ dels\<rparr>"
proof -
  obtain p c where e: "e = (p, c)" by (cases e)
  have id: "\<And>b :: WriteBatch. b = b\<lparr>Puts := Puts b @ [], Deletes := Deletes b @ []\<rparr>" by simp
  show ?thesis
  proof (cases c)
    case None
    with assms e obtain prevRow1 k where "p = Some prevRow1"
      and st1: "st1 = st\<lparr>outRows := outRows st @ [prevRow1],
                          entries := entries st @ [(int (length (outRows st)), - 1)],
                          ctxWriteBatch := AddDelete (ctxWriteBatch st) k\<rparr>"
      by (auto simp: handleEntry_def Let_def split: option.splits sum.splits)
    show ?thesis
      unfolding st1
      by (rule exI [of _ "[prevRow1]"], rule exI, rule exI [of _ "[]"], rule exI [of _ "[k]"])
         (simp add: AddDelete_def)
  next
    case (Some r)
    with assms e obtain rows pidx k val where
      st1: "st1 = st\<lparr>outRows := outRows st @ rows,
                          entries := entries st @ [pidx],
                          ctxWriteBatch := AddPut (ctxWriteBatch st) k val\<rparr>"
      by (auto simp: handleEntry_def Let_def split: option.splits sum.splits)
    show ?thesis
      unfolding st1
      by (rule exI [of _ rows], rule exI, rule exI [of _ "[\<lparr>Key = k, Value = val\<rparr>]"], rule exI [of _ "[]"])
         (simp add: AddPut_def)
  qed
qed

lemma handleEntries_grows:
  "handleEntries t st es = Inr st' \<Longrightarrow>
   \<exists>rows xs puts dels.
      outRows st' = outRows st @ rows \<and> entries st' = entries st @ xs \<and> length xs = length es
      \<and> ctxWriteBatch st' = (ctxWriteBatch st)\<lparr>Puts := Puts (ctxWriteBatch st) @ puts,
                                                 Deletes := Deletes (ctxWriteBatch st) @ dels\<rparr>"
proof (induction es arbitrary: st)
  case Nil
  then have "st' = st" by simp
  then show ?case
    by (intro exI [of _ "[]"]) simp
next
  case (Cons e es)
  from Cons.prems obtain st1 where s1: "handleEntry t st e = Inr st1"
    and rest: "handleEntries t st1 es = Inr st'"
    by (auto split: sum.splits)
  from handleEntry_grows [OF s1] obtain rows x puts dels where
    a: "outRows st1 = outRows st @ rows" "entries st1 = entries st @ [x]"
       "ctxWriteBatch st1 = (ctxWriteBatch st)\<lparr>Puts := Puts (ctxWriteBatch st) @ puts,
                                                Deletes := Deletes (ctxWriteBatch st) @ dels\<rparr>"
    by blast
  from Cons.IH [OF rest] obtain rows' xs puts' dels' where
    b: "outRows st' = outRows st1 @ rows'" "entries st' = entries st1 @ xs" "length xs = length es"
       "ctxWriteBatch st' = (ctxWriteBatch st1)\<lparr>Puts := Puts (ctxWriteBatch st1) @ puts',
                                                 Deletes := Deletes (ctxWriteBatch st1) @ dels'\<rparr>"
    by blast
  show ?case
    by (rule exI [of _ "rows @ rows'"], rule exI [of _ "x # xs"],
        rule exI [of _ "puts @ puts'"], rule exI [of _ "dels @ dels'"])
       (simp add: a b)
qed

lemma handleEntry_existing:
  assumes "handleEntry t st (p, Some r) = Inr st1"
    and "EncodeKeyCols t r (EncodeTableKeyPrefix (TableInfoID t) (ShardID (ctxWriteBatch st))) = Inr k"
    and "LocalGet (store t) k = Inr (Some v)"
  shows "\<exists>old val. DecodeRow t v = Inr old \<and> EncodeRow t r = Inr val
           \<and> st1 = st\<lparr>outRows := outRows st @ [old, r],
                       entries := entries st @ [(int (length (outRows st)), int (length (outRows st)) + 1)],
                       ctxWriteBatch := AddPut (ctxWriteBatch st) k val\<rparr>"
  using assms
  by (auto simp: handleEntry_def Let_def split: sum.splits)

lemma handleEntries_existing:
  assumes "handleEntries t st es = Inr st'"
    and "i < length es" and "es ! i = (p, Some r)"
    and "EncodeKeyCols t r (EncodeTableKeyPrefix (TableInfoID t) (ShardID (ctxWriteBatch st))) = Inr k"
    and "LocalGet (store t) k = Inr (Some v)"
  shows "\<exists>old val pidx. DecodeRow t v = Inr old \<and> EncodeRow t r = Inr val
           \<and> entries st' ! (length (entries st) + i) = (int pidx, int pidx + 1)
           \<and> outRows st' ! pidx = old \<and> outRows st' ! (pidx + 1) = r
           \<and> \<lparr>Key = k, Value = val\<rparr> \<in> set (Puts (ctxWriteBatch st'))"
  using assms
proof (induction es arbitrary: st i)
  case Nil
  then show ?case by simp
next
  case (Cons e es)
  from Cons.prems(1) obtain st1 where s1: "handleEntry t st e = Inr st1"
    and rest: "handleEntries t st1 es = Inr st'"
    by (auto split: sum.splits)
  from handleEntry_grows [OF s1] obtain rows x puts dels where
    a: "outRows st1 = outRows st @ rows" "entries st1 = entries st @ [x]"
       "ctxWriteBatch st1 = (ctxWriteBatch st)\<lparr>Puts := Puts (ctxWriteBatch st) @ puts,
                                                Deletes := Deletes (ctxWriteBatch st) @ dels\<rparr>"
    by blast
  from handleEntries_grows [OF rest] obtain rows' xs puts' dels' where
    b: "outRows st' = outRows st1 @ rows'" "entries st' = entries st1 @ xs" "length xs = length es"
       "ctxWriteBatch st' = (ctxWriteBatch st1)\<lparr>Puts := Puts (ctxWriteBatch st1) @ puts',
                                                 Deletes := Deletes (ctxWriteBatch st1) @ dels'\<rparr>"
    by blast
  show ?case
  proof (cases i)
    case 0
    with Cons.prems(3) have e: "e = (p, Some r)" by simp
    from handleEntry_existing [OF s1 [unfolded e] Cons.prems(4) Cons.prems(5)]
    obtain old val where d: "DecodeRow t v = Inr old" and en: "EncodeRow t r = Inr val"
      and st1: "st1 = st\<lparr>outRows := outRows st @ [old, r],
                       entries := entries st @ [(int (length (outRows st)), int (length (outRows st)) + 1)],
                       ctxWriteBatch := AddPut (ctxWriteBatch st) k val\<rparr>"
      by blast
    have e1: "entries st' ! (length (entries st) + i)
              = (int (length (outRows st)), int (length (outRows st)) + 1)"
      using b(2) st1 0 by (simp add: nth_append)
    have r1: "outRows st' ! length (outRows st) = old" "outRows st' ! (length (outRows st) + 1) = r"
      using b(1) st1 by (simp_all add: nth_append)
    have p1: "\<lparr>Key = k, Value = val\<rparr> \<in> set (Puts (ctxWriteBatch st'))"
      using b(4) st1 by (simp add: AddPut_def)
    from d en e1 r1 p1 show ?thesis by blast
  next
    case (Suc j)
    with Cons.prems have j: "j < length es" "es ! j = (p, Some r)" by simp_all
    have sid: "ShardID (ctxWriteBatch st1) = ShardID (ctxWriteBatch st)"
      using a(3) by simp
    from Cons.IH [OF rest j, unfolded sid, OF Cons.prems(4) Cons.prems(5)]
    obtain old val pidx where "DecodeRow t v = Inr old" "EncodeRow t r = Inr val"
      "entries st' ! (length (entries st1) + j) = (int pidx, int pidx + 1)"
      "outRows st' ! pidx = old" "outRows st' ! (pidx + 1) = r"
      "\<lparr>Key = k, Value = val\<rparr> \<in> set (Puts (ctxWriteBatch st'))"
      by blast
    then show ?thesis
      using a(2) Suc by auto
  qed
qed

lemma HandleRows_single:
  assumes "EncodeKeyCols t r (EncodeTableKeyPrefix (TableInfoID t) sid) = Inr k"
    and "EncodeRow t r = Inr val"
    and "LocalGet (store t) k = Inr found"
    and "found = None \<or> (\<exists>stored. found = Some stored \<and> DecodeRow t stored = Inr old)"
  shows "HandleRows t noConsumers [(None, Some r)] (NewWriteBatch sid False)
     = Inr (t\<lparr>uncommittedBatches := insert sid (uncommittedBatches t)\<rparr>,
            (if found = None then ([r], [(- 1, 0)]) else ([old, r], [(0, 1)])),
            AddPut (NewWriteBatch sid False) k val)"
  using assms
  by (auto simp: HandleRows_def handleEntry_def noConsumers_def NewWriteBatch_def Let_def)

lemma ShardID_NewWriteBatch: "ShardID (NewWriteBatch sid notify) = sid"
  by (simp add: NewWriteBatch_def)

lemma applyWriteBatch_put:
  "applyWriteBatch s (AddPut (NewWriteBatch sid notify) k v) = s(k \<mapsto> v)"
  by (simp add: applyWriteBatch_def AddPut_def NewWriteBatch_def)

text \<open>
  Claim C5. When \<open>HandleRows\<close> returns, every entry with a current row whose encoded
  primary key is already in the store has its stored row decoded and emitted as the previous
  row, directly followed by the new row as the current row, and the encoded new row is put
  under that key in the write batch handed on. Consequently, on a table with no consumers,
  ingesting a row and then, after the batch is committed, a second row with the same primary
  key emits the first row as the previous row of the second and leaves the store with the
  second value under that one key, all other keys as they were; ingesting both in one batch
  leaves the same store (there the second row finds nothing stored and has no previous row).
\<close>

theorem HandleRows_existing_key:
  fixes t :: "'row TableExecutor"
  shows
  "(\<forall>fwd es batch t' rows ents b' i p r k v.
      HandleRows t fwd es batch = Inr (t', (rows, ents), b')
      \<and> i < length es \<and> es ! i = (p, Some r)
      \<and> EncodeKeyCols t r (EncodeTableKeyPrefix (TableInfoID t) (ShardID batch)) = Inr k
      \<and> LocalGet (store t) k = Inr (Some v)
      \<longrightarrow> (\<exists>old val pidx b0.
             DecodeRow t v = Inr old \<and> EncodeRow t r = Inr val
             \<and> ents ! i = (int pidx, int pidx + 1)
             \<and> rows ! pidx = old \<and> rows ! (pidx + 1) = r
             \<and> \<lparr>Key = k, Value = val\<rparr> \<in> set (Puts b0)
             \<and> fwd (rows, ents) b0 = Inr b'))
   \<and> (\<forall>s0 sid r1 r2 k v1 v2 d1.
        EncodeKeyCols t r1 (EncodeTableKeyPrefix (TableInfoID t) sid) = Inr k
        \<and> EncodeKeyCols t r2 (EncodeTableKeyPrefix (TableInfoID t) sid) = Inr k
        \<and> EncodeRow t r1 = Inr v1 \<and> EncodeRow t r2 = Inr v2 \<and> DecodeRow t v1 = Inr d1
        \<and> s0 k = None
        \<longrightarrow> (\<exists>t1 t2 b1 b2.
               HandleRows (t\<lparr>store := onStore (store t) s0\<rparr>) noConsumers [(None, Some r1)]
                   (NewWriteBatch sid False)
                 = Inr (t1, ([r1], [(- 1, 0)]), b1)
               \<and> HandleRows (t\<lparr>store := onStore (store t) (applyWriteBatch s0 b1)\<rparr>) noConsumers
                   [(None, Some r2)] (NewWriteBatch sid False)
                 = Inr (t2, ([d1, r2], [(0, 1)]), b2)
               \<and> applyWriteBatch (applyWriteBatch s0 b1) b2 = s0(k \<mapsto> v2)
               \<and> (\<exists>t3 b3.
                    HandleRows (t\<lparr>store := onStore (store t) s0\<rparr>) noConsumers
                        [(None, Some r1), (None, Some r2)] (NewWriteBatch sid False)
                      = Inr (t3, ([r1, r2], [(- 1, 0), (- 1, 1)]), b3)
                    \<and> applyWriteBatch s0 b3 = s0(k \<mapsto> v2))))"
proof (intro conjI allI impI)
  fix fwd :: "'row list \<times> (int \<times> int) list \<Rightarrow> WriteBatch \<Rightarrow> error + WriteBatch"
    and es :: "('row option \<times> 'row option) list" and batch b' :: WriteBatch
    and t' :: "'row TableExecutor" and rows :: "'row list" and ents :: "(int \<times> int) list"
    and i :: nat and p :: "'row option" and r :: 'row and k v :: "byte list"
  assume a: "HandleRows t fwd es batch = Inr (t', (rows, ents), b')
      \<and> i < length es \<and> es ! i = (p, Some r)
      \<and> EncodeKeyCols t r (EncodeTableKeyPrefix (TableInfoID t) (ShardID batch)) = Inr k
      \<and> LocalGet (store t) k = Inr (Some v)"
  let ?t1 = "t\<lparr>uncommittedBatches := insert (ShardID batch) (uncommittedBatches t)\<rparr>"
  let ?st0 = "\<lparr>outRows = [], entries = [], ctxWriteBatch = batch\<rparr>"
  from a obtain st where run: "handleEntries ?t1 ?st0 es = Inr st"
    and fw: "fwd (outRows st, entries st) (ctxWriteBatch st) = Inr b'"
    and res: "rows = outRows st" "ents = entries st"
    by (auto simp: HandleRows_def Let_def split: sum.splits)
  have k: "EncodeKeyCols ?t1 r (EncodeTableKeyPrefix (TableInfoID ?t1) (ShardID (ctxWriteBatch ?st0))) = Inr k"
    and g: "LocalGet (store ?t1) k = Inr (Some v)"
    using a by simp_all
  from a have i: "i < length es" and e: "es ! i = (p, Some r)" by simp_all
  from handleEntries_existing [OF run i e k g]
  obtain old val pidx where "DecodeRow t v = Inr old" "EncodeRow t r = Inr val"
    "entries st ! i = (int pidx, int pidx + 1)"
    "outRows st ! pidx = old" "outRows st ! (pidx + 1) = r"
    "\<lparr>Key = k, Value = val\<rparr> \<in> set (Puts (ctxWriteBatch st))"
    by auto
  with fw res show "\<exists>old val pidx b0.
             DecodeRow t v = Inr old \<and> EncodeRow t r = Inr val
             \<and> ents ! i = (int pidx, int pidx + 1)
             \<and> rows ! pidx = old \<and> rows ! (pidx + 1) = r
             \<and> \<lparr>Key = k, Value = val\<rparr> \<in> set (Puts b0)
             \<and> fwd (rows, ents) b0 = Inr b'"
    by blast
next
  fix s0 :: "byte list \<rightharpoonup> byte list" and sid :: u64 and r1 r2 d1 :: 'row
    and k v1 v2 :: "byte list"
  assume a: "EncodeKeyCols t r1 (EncodeTableKeyPrefix (TableInfoID t) sid) = Inr k
        \<and> EncodeKeyCols t r2 (EncodeTableKeyPrefix (TableInfoID t) sid) = Inr k
        \<and> EncodeRow t r1 = Inr v1 \<and> EncodeRow t r2 = Inr v2 \<and> DecodeRow t v1 = Inr d1
        \<and> s0 k = None"
  let ?ta = "t\<lparr>store := onStore (store t) s0\<rparr>"
  let ?b1 = "AddPut (NewWriteBatch sid False) k v1"
  let ?tb = "t\<lparr>store := onStore (store t) (applyWriteBatch s0 ?b1)\<rparr>"
  let ?b2 = "AddPut (NewWriteBatch sid False) k v2"
  have first: "HandleRows ?ta noConsumers [(None, Some r1)] (NewWriteBatch sid False)
     = Inr (?ta\<lparr>uncommittedBatches := insert sid (uncommittedBatches ?ta)\<rparr>, ([r1], [(- 1, 0)]), ?b1)"
    using HandleRows_single [of ?ta r1 sid k v1 None] a by (simp add: onStore_def)
  have second: "HandleRows ?tb noConsumers [(None, Some r2)] (NewWriteBatch sid False)
     = Inr (?tb\<lparr>uncommittedBatches := insert sid (uncommittedBatches ?tb)\<rparr>, ([d1, r2], [(0, 1)]), ?b2)"
    using HandleRows_single [of ?tb r2 sid k v2 "Some v1" d1] a
    by (simp add: onStore_def applyWriteBatch_put)
  have third: "applyWriteBatch (applyWriteBatch s0 ?b1) ?b2 = s0(k \<mapsto> v2)"
    by (simp add: applyWriteBatch_put)
  let ?b3 = "AddPut (AddPut (NewWriteBatch sid False) k v1) k v2"
  have both: "HandleRows ?ta noConsumers [(None, Some r1), (None, Some r2)] (NewWriteBatch sid False)
     = Inr (?ta\<lparr>uncommittedBatches := insert sid (uncommittedBatches ?ta)\<rparr>,
            ([r1, r2], [(- 1, 0), (- 1, 1)]), ?b3)"
    using a
    by (simp add: HandleRows_def handleEntry_def noConsumers_def NewWriteBatch_def Let_def
        onStore_def AddPut_def)
  have fourth: "applyWriteBatch s0 ?b3 = s0(k \<mapsto> v2)"
    by (simp add: applyWriteBatch_def AddPut_def NewWriteBatch_def)
  from first second third both fourth
  show "\<exists>t1 t2 b1 b2.
               HandleRows (t\<lparr>store := onStore (store t) s0\<rparr>) noConsumers [(None, Some r1)]
                   (NewWriteBatch sid False)
                 = Inr (t1, ([r1], [(- 1, 0)]), b1)
               \<and> HandleRows (t\<lparr>store := onStore (store t) (applyWriteBatch s0 b1)\<rparr>) noConsumers
                   [(None, Some r2)] (NewWriteBatch sid False)
                 = Inr (t2, ([d1, r2], [(0, 1)]), b2)
               \<and> applyWriteBatch (applyWriteBatch s0 b1) b2 = s0(k \<mapsto> v2)
               \<and> (\<exists>t3 b3.
                    HandleRows (t\<lparr>store := onStore (store t) s0\<rparr>) noConsumers
                        [(None, Some r1), (None, Some r2)] (NewWriteBatch sid False)
                      = Inr (t3, ([r1, r2], [(- 1, 0), (- 1, 1)]), b3)
                    \<and> applyWriteBatch s0 b3 = s0(k \<mapsto> v2))"
    by blast
qed

theorem HandleRows_existing_key_witness:
  "\<exists>t1 t2 b1 b2.
      HandleRows (tableExec\<lparr>store := onStore cluster0 Map.empty\<rparr>) noConsumers
          [(None, Some [1, 120])] (NewWriteBatch 5 False)
        = Inr (t1, ([[1, 120]], [(- 1, 0)]), b1)
      \<and> HandleRows (tableExec\<lparr>store := onStore cluster0 (applyWriteBatch Map.empty b1)\<rparr>) noConsumers
          [(None, Some [1, 121])] (NewWriteBatch 5 False)
        = Inr (t2, ([[1, 120], [1, 121]], [(0, 1)]), b2)
      \<and> applyWriteBatch (applyWriteBatch Map.empty b1) b2
        = [EncodeTableKeyPrefix 1000 5 @ [1] \<mapsto> [1, 121]]
      \<and> \<lparr>Key = EncodeTableKeyPrefix 1000 5 @ [1], Value = [1, 121]\<rparr> \<in> set (Puts b2)"
proof -
  let ?k = "EncodeTableKeyPrefix 1000 5 @ [1]"
  have h: "EncodeKeyCols tableExec [1, 120] (EncodeTableKeyPrefix (TableInfoID tableExec) 5) = Inr ?k
        \<and> EncodeKeyCols tableExec [1, 121] (EncodeTableKeyPrefix (TableInfoID tableExec) 5) = Inr ?k
        \<and> EncodeRow tableExec [1, 120] = Inr [1, 120] \<and> EncodeRow tableExec [1, 121] = Inr [1, 121]
        \<and> DecodeRow tableExec [1, 120] = Inr [1, 120]
        \<and> Map.empty ?k = None"
    by (simp add: tableExec_def)
  have st: "store tableExec = cluster0" by (simp add: tableExec_def)
  note B = HandleRows_existing_key [of tableExec, THEN conjunct2, rule_format,
      where ?s0.0 = Map.empty and sid = 5 and ?r1.0 = "[1, 120]" and ?r2.0 = "[1, 121]" and k = ?k
        and ?v1.0 = "[1, 120]" and ?v2.0 = "[1, 121]" and ?d1.0 = "[1, 120]"]
  from B [OF h]
  obtain t1 t2 b1 b2 where
    a: "HandleRows (tableExec\<lparr>store := onStore (store tableExec) Map.empty\<rparr>) noConsumers
          [(None, Some [1, 120])] (NewWriteBatch 5 False)
        = Inr (t1, ([[1, 120]], [(- 1, 0)]), b1)"
    and b: "HandleRows (tableExec\<lparr>store := onStore (store tableExec) (applyWriteBatch Map.empty b1)\<rparr>)
          noConsumers [(None, Some [1, 121])] (NewWriteBatch 5 False)
        = Inr (t2, ([[1, 120], [1, 121]], [(0, 1)]), b2)"
    and c: "applyWriteBatch (applyWriteBatch Map.empty b1) b2 = [?k \<mapsto> [1, 121]]"
    by blast
  let ?tb = "tableExec\<lparr>store := onStore (store tableExec) (applyWriteBatch Map.empty b1)\<rparr>"
  have b1: "b1 = AddPut (NewWriteBatch 5 False) ?k [1, 120]"
    using a by (simp add: HandleRows_def handleEntry_def noConsumers_def NewWriteBatch_def Let_def
        onStore_def tableExec_def)
  have g: "HandleRows ?tb noConsumers [(None, Some [1, 121])] (NewWriteBatch 5 False)
             = Inr (t2, ([[1, 120], [1, 121]], [(0, 1)]), b2)
      \<and> (0::nat) < length [(None :: byte list option, Some [1, 121 :: byte])]
      \<and> [(None, Some [1, 121 :: byte])] ! 0 = (None, Some [1, 121])
      \<and> EncodeKeyCols ?tb [1, 121] (EncodeTableKeyPrefix (TableInfoID ?tb) (ShardID (NewWriteBatch 5 False))) = Inr ?k
      \<and> LocalGet (store ?tb) ?k = Inr (Some [1, 120])"
    using b by (simp add: tableExec_def ShardID_NewWriteBatch onStore_def b1 applyWriteBatch_put)
  note A = HandleRows_existing_key [of ?tb, THEN conjunct1, rule_format,
      where fwd = noConsumers and es = "[(None, Some [1, 121])]" and batch = "NewWriteBatch 5 False"
        and t' = t2 and rows = "[[1, 120], [1, 121]]" and ents = "[(0, 1)]" and b' = b2 and i = 0
        and p = None and r = "[1, 121]" and k = ?k and v = "[1, 120]"]
  from A [OF g]
  have "\<exists>old val pidx b0.
             DecodeRow ?tb [1, 120] = Inr old \<and> EncodeRow ?tb [1, 121] = Inr val
             \<and> [(0::int, 1::int)] ! 0 = (int pidx, int pidx + 1)
             \<and> [[1, 120], [1, 121 :: byte]] ! pidx = old \<and> [[1, 120], [1, 121 :: byte]] ! (pidx + 1) = [1, 121]
             \<and> \<lparr>Key = ?k, Value = val\<rparr> \<in> set (Puts b0)
             \<and> noConsumers ([[1, 120], [1, 121 :: byte]], [(0, 1)]) b0 = Inr b2"
    by blast
  then have d: "\<lparr>Key = ?k, Value = [1, 121]\<rparr> \<in> set (Puts b2)"
    by (auto simp: tableExec_def noConsumers_def)
  from a b c d show ?thesis
    unfolding st by blast
qed

section \<open>One statement at a time\<close>

lemma oneStatement_NewClient: "oneStatement NewClient"
  by (simp add: oneStatement_def NewClient_def live_def)

lemma oneStatement_step:
  assumes "oneStatement c" and "step c e = Some (c1, r)"
  shows "oneStatement c1"
proof (cases e)
  case (CallStart dialError)
  with assms show ?thesis
    by (auto simp: Start_def oneStatement_def live_def Let_def split: if_splits option.splits)
next
  case (CallStop closeError)
  with assms show ?thesis
    by (auto simp: Stop_def oneStatement_def live_def Let_def split: if_splits option.splits)
next
  case (CallCreateSession answer)
  with assms show ?thesis
    by (auto simp: CreateSession_def oneStatement_def live_def Let_def split: if_splits sum.splits)
next
  case (CallCloseSession s answer)
  with assms show ?thesis
    by (auto simp: CloseSession_def oneStatement_def live_def Let_def split: if_splits option.splits)
next
  case (CallExecuteStatement s q)
  show ?thesis
  proof (cases "started c \<and> \<not> executing c")
    case False
    with assms CallExecuteStatement show ?thesis
      by (auto simp: ExecuteStatement_def split: if_splits)
  next
    case True
    then have none: "\<And>i. \<not> live c i" using assms(1) by (simp add: oneStatement_def)
    have c1: "c1 = c\<lparr>executing := True,
               goroutines := goroutines c @
                 [\<lparr>goSessionID = s, goStatement = q, chLines = [],
                   chClosed = False, goPhase = Spawned\<rparr>]\<rparr>"
      using assms(2) CallExecuteStatement True by (simp add: ExecuteStatement_def)
    have l: "\<And>i. live c1 i \<longleftrightarrow> i = length (goroutines c)"
      using none unfolding c1 live_def by (auto simp: nth_append)
    show ?thesis
      unfolding oneStatement_def l
      using assms(1) by (auto simp: c1 oneStatement_def nth_append)
  qed
next
  case (HeartbeatTimer visited failing)
  with assms show ?thesis
    by (auto simp: sendHeartbeats_def oneStatement_def live_def split: if_splits)
next
  case (GoRequest i)
  with assms show ?thesis
    by (auto simp: goStep_def oneStatement_def live_def nth_list_update split: if_splits)
next
  case (GoSend i line)
  with assms show ?thesis
    by (auto simp: goStep_def oneStatement_def live_def nth_list_update split: if_splits)
next
  case (GoFinal i line)
  with assms show ?thesis
    by (auto simp: goStep_def oneStatement_def live_def nth_list_update split: if_splits)
next
  case (GoClose i)
  with assms show ?thesis
    by (auto simp: goStep_def oneStatement_def live_def nth_list_update split: if_splits)
next
  case (GoClear i)
  with assms have i: "i < length (goroutines c)" "goPhase (goroutines c ! i) = ChannelClosed"
    and c1: "c1 = c\<lparr>goroutines := (goroutines c)[i := (goroutines c ! i)\<lparr>goPhase := Finished\<rparr>],
                     executing := False\<rparr>"
    by (auto simp: goStep_def split: if_splits)
  from i have "live c i" by (simp add: live_def)
  with assms(1) have only: "\<And>j. live c j \<Longrightarrow> j = i" by (auto simp: oneStatement_def)
  have l: "\<And>j. \<not> live c1 j"
    using only i unfolding c1 live_def by (auto simp: nth_list_update)
  show ?thesis
    unfolding oneStatement_def using l assms(1) i
    by (auto simp: c1 oneStatement_def nth_list_update)
qed

lemma oneStatement_run:
  "oneStatement c \<Longrightarrow> run c evs = Some c1 \<Longrightarrow> oneStatement c1"
proof (induction evs arbitrary: c)
  case Nil
  then show ?case by simp
next
  case (Cons e evs)
  from Cons.prems(2) obtain c2 r where s: "step c e = Some (c2, r)" and rest: "run c2 evs = Some c1"
    by (auto split: option.splits)
  from oneStatement_step [OF Cons.prems(1) s] rest show ?case by (rule Cons.IH)
qed

lemma step_clears_executing:
  assumes "step c e = Some (c1, r)" and "executing c" and "\<not> executing c1"
  shows "\<exists>i. e = GoClear i \<and> i < length (goroutines c)
             \<and> goPhase (goroutines c ! i) = ChannelClosed"
  using assms
  by (cases e)
     (auto simp: Start_def Stop_def CreateSession_def CloseSession_def ExecuteStatement_def
        sendHeartbeats_def goStep_def Let_def split: if_splits sum.splits option.splits)

lemma step_closed_channel:
  assumes "step c e = Some (c1, r)" and "oneStatement c"
    and "i < length (goroutines c)" and "chClosed (goroutines c ! i)"
  shows "chLines (goroutines c1 ! i) = chLines (goroutines c ! i) \<and> chClosed (goroutines c1 ! i)"
proof -
  from assms(2-4) have ph: "goPhase (goroutines c ! i) \<in> {ChannelClosed, Finished}"
    by (simp add: oneStatement_def)
  show ?thesis
    using assms(1,3,4) ph
    by (cases e)
       (auto simp: Start_def Stop_def CreateSession_def CloseSession_def ExecuteStatement_def
          sendHeartbeats_def goStep_def Let_def nth_append nth_list_update
          split: if_splits sum.splits option.splits)
qed

text \<open>
  Claim C10. In every state that a new client reaches by any sequence of steps: at most one
  statement goroutine is live; while \<open>executing\<close> is set, \<open>CreateSession\<close>,
  \<open>CloseSession\<close> and \<open>ExecuteStatement\<close> return an error and leave the client as it
  was, so no request is sent to the server; the only step that clears \<open>executing\<close> is the
  last step of a goroutine whose channel is already closed; and nothing is written to a
  closed channel afterwards.
\<close>

theorem Client_one_statement_at_a_time:
  assumes "run NewClient evs = Some c"
  shows "(\<forall>i j. live c i \<and> live c j \<longrightarrow> i = j)
       \<and> (executing c \<longrightarrow>
            (\<forall>answer. \<exists>msg. CreateSession c answer = (c, ReturnedError msg))
            \<and> (\<forall>sessionID answer. \<exists>msg. CloseSession c sessionID answer = (c, ReturnedError msg))
            \<and> (\<forall>sessionID statement. \<exists>msg.
                  ExecuteStatement c sessionID statement = (c, ReturnedError msg)))
       \<and> (\<forall>e c1 r. step c e = Some (c1, r) \<and> executing c \<and> \<not> executing c1 \<longrightarrow>
            (\<exists>i. e = GoClear i \<and> i < length (goroutines c)
                 \<and> goPhase (goroutines c ! i) = ChannelClosed
                 \<and> chClosed (goroutines c ! i)))
       \<and> (\<forall>e c1 r i. step c e = Some (c1, r) \<and> i < length (goroutines c)
                     \<and> chClosed (goroutines c ! i) \<longrightarrow>
            chLines (goroutines c1 ! i) = chLines (goroutines c ! i)
            \<and> chClosed (goroutines c1 ! i))"
proof -
  have inv: "oneStatement c"
    by (rule oneStatement_run [OF oneStatement_NewClient assms])
  have one: "\<forall>i j. live c i \<and> live c j \<longrightarrow> i = j"
    using inv by (simp add: oneStatement_def)
  have busy: "executing c \<longrightarrow>
            (\<forall>answer. \<exists>msg. CreateSession c answer = (c, ReturnedError msg))
            \<and> (\<forall>sessionID answer. \<exists>msg. CloseSession c sessionID answer = (c, ReturnedError msg))
            \<and> (\<forall>sessionID statement. \<exists>msg.
                  ExecuteStatement c sessionID statement = (c, ReturnedError msg))"
    by (simp add: CreateSession_def CloseSession_def ExecuteStatement_def)
  have clear: "\<forall>e c1 r. step c e = Some (c1, r) \<and> executing c \<and> \<not> executing c1 \<longrightarrow>
            (\<exists>i. e = GoClear i \<and> i < length (goroutines c)
                 \<and> goPhase (goroutines c ! i) = ChannelClosed
                 \<and> chClosed (goroutines c ! i))"
  proof (intro allI impI)
    fix e c1 r
    assume a: "step c e = Some (c1, r) \<and> executing c \<and> \<not> executing c1"
    then obtain i where i: "e = GoClear i" "i < length (goroutines c)"
      "goPhase (goroutines c ! i) = ChannelClosed"
      using step_clears_executing [of c e c1 r] by blast
    then have "chClosed (goroutines c ! i)"
      using inv by (simp add: oneStatement_def)
    with i show "\<exists>i. e = GoClear i \<and> i < length (goroutines c)
                 \<and> goPhase (goroutines c ! i) = ChannelClosed
                 \<and> chClosed (goroutines c ! i)"
      by blast
  qed
  have closed: "\<forall>e c1 r i. step c e = Some (c1, r) \<and> i < length (goroutines c)
                     \<and> chClosed (goroutines c ! i) \<longrightarrow>
            chLines (goroutines c1 ! i) = chLines (goroutines c ! i)
            \<and> chClosed (goroutines c1 ! i)"
    using step_closed_channel [OF _ inv] by blast
  from one busy clear closed show ?thesis by (intro conjI)
qed

lemma run_statementRunning:
  "run NewClient [CallStart None, CallExecuteStatement ''s1'' ''select 1''] = Some statementRunning"
  by (simp add: NewClient_def Start_def ExecuteStatement_def statementRunning_def)

lemma run_statementClosed:
  "run NewClient [CallStart None, CallExecuteStatement ''s1'' ''select 1'', GoRequest 0,
                  GoFinal 0 ''0 rows returned'', GoClose 0] = Some statementClosed"
  by (simp add: NewClient_def Start_def ExecuteStatement_def statementClosed_def goStep_def)

theorem Client_one_statement_at_a_time_witness:
  "(\<exists>msg. CreateSession statementRunning (Inr ''s2'') = (statementRunning, ReturnedError msg))
   \<and> (\<exists>msg. CloseSession statementRunning ''s1'' None = (statementRunning, ReturnedError msg))
   \<and> (\<exists>msg. ExecuteStatement statementRunning ''s1'' ''select 2''
               = (statementRunning, ReturnedError msg))
   \<and> step statementClosed (GoClear 0)
       = Some (statementClosed\<lparr>goroutines := [(goroutines statementClosed ! 0)\<lparr>goPhase := Finished\<rparr>],
                                executing := False\<rparr>, Returned)
   \<and> chClosed (goroutines statementClosed ! 0)"
proof -
  have ex: "executing statementRunning" by (simp add: statementRunning_def)
  from Client_one_statement_at_a_time [OF run_statementRunning] ex
  have a: "(\<exists>msg. CreateSession statementRunning (Inr ''s2'') = (statementRunning, ReturnedError msg))
   \<and> (\<exists>msg. CloseSession statementRunning ''s1'' None = (statementRunning, ReturnedError msg))
   \<and> (\<exists>msg. ExecuteStatement statementRunning ''s1'' ''select 2''
               = (statementRunning, ReturnedError msg))"
    by blast
  have s: "step statementClosed (GoClear 0)
       = Some (statementClosed\<lparr>goroutines := [(goroutines statementClosed ! 0)\<lparr>goPhase := Finished\<rparr>],
                                executing := False\<rparr>, Returned)"
    by (simp add: statementClosed_def goStep_def)
  have h: "step statementClosed (GoClear 0)
       = Some (statementClosed\<lparr>goroutines := [(goroutines statementClosed ! 0)\<lparr>goPhase := Finished\<rparr>],
                                executing := False\<rparr>, Returned)
     \<and> executing statementClosed
     \<and> \<not> executing (statementClosed\<lparr>goroutines := [(goroutines statementClosed ! 0)\<lparr>goPhase := Finished\<rparr>],
                                executing := False\<rparr>)"
    using s by (simp add: statementClosed_def)
  from Client_one_statement_at_a_time [OF run_statementClosed, THEN conjunct2, THEN conjunct2,
      THEN conjunct1, rule_format, OF h]
  have b: "chClosed (goroutines statementClosed ! 0)" by auto
  from a s b show ?thesis by blast
qed

end
